theory Spec2Isabelle
  imports Complex_Main
begin

section \<open>Aspect-ratio policy (src/constants.py, class AspectRatios)\<close>

text \<open>
  The three class-level dictionaries are association lists, in the order of the
  dictionary literals (Python dictionaries keep insertion order, and \<open>all_formats\<close>
  returns the keys in that order).  \<open>dict.get(key, default)\<close> is \<open>map_of\<close> with
  the default for a missing key.
\<close>

definition OUTPUT_DIMENSIONS :: "(string \<times> (int \<times> int)) list" where
  "OUTPUT_DIMENSIONS =
     [(''1x1'', (1080, 1080)),
      (''9x16'', (1080, 1920)),
      (''16x9'', (1920, 1080)),
      (''4x5'', (1080, 1350)),
      (''2x3'', (1080, 1620))]"

definition GENERATION_DIMENSIONS :: "(string \<times> (int \<times> int)) list" where
  "GENERATION_DIMENSIONS =
     [(''1x1'', (1024, 1024)),
      (''9x16'', (1080, 1920)),
      (''16x9'', (1920, 1080)),
      (''4x3'', (1024, 768)),
      (''3x4'', (768, 1024))]"

definition FLUX_FORMATS :: "(string \<times> string) list" where
  "FLUX_FORMATS =
     [(''1x1'', ''square''),
      (''9x16'', ''portrait_16_9''),
      (''16x9'', ''landscape_16_9''),
      (''4x3'', ''landscape_4_3''),
      (''3x4'', ''portrait_3_4'')]"

definition dict_get :: "('k \<times> 'v) list \<Rightarrow> 'k \<Rightarrow> 'v \<Rightarrow> 'v" where
  "dict_get d k dflt = (case map_of d k of None \<Rightarrow> dflt | Some v \<Rightarrow> v)"

definition get_output_size :: "string \<Rightarrow> int \<times> int" where
  "get_output_size format_name = dict_get OUTPUT_DIMENSIONS format_name (1080, 1080)"

definition get_generation_size :: "string \<Rightarrow> int \<times> int" where
  "get_generation_size format_name = dict_get GENERATION_DIMENSIONS format_name (1920, 1080)"

definition get_flux_format :: "string \<Rightarrow> string" where
  "get_flux_format format_name = dict_get FLUX_FORMATS format_name ''landscape_16_9''"

definition all_formats :: "string list" where
  "all_formats = map fst OUTPUT_DIMENSIONS"

section \<open>Python values\<close>

text \<open>
  The compliance checker returns nested dictionaries.  A dictionary is an association
  list from keys to values, a Python value is one of the shapes the checker builds.
  Strings are lists of code points below 256 (ASCII and Latin-1), which covers every
  literal of the program.
\<close>

datatype pyval =
    PyNone
  | PyBool bool
  | PyFloat real
  | PyStr string
  | PyList "pyval list"
  | PyDict "(string \<times> pyval) list"

text \<open>\<open>d[key]\<close> raises KeyError for a missing key; \<open>d.get(key, default)\<close> does not.\<close>

datatype py_error =
    KeyError string
  | TypeError
  | FileNotFoundError string
  | ValueError string
  | ZeroDivisionError
  | IOError string

definition subscript :: "pyval \<Rightarrow> string \<Rightarrow> py_error + pyval" where
  "subscript d k =
     (case d of
        PyDict kvs \<Rightarrow> (case map_of kvs k of None \<Rightarrow> Inl (KeyError k) | Some v \<Rightarrow> Inr v)
      | _ \<Rightarrow> Inl TypeError)"

definition py_get :: "pyval \<Rightarrow> string \<Rightarrow> pyval \<Rightarrow> pyval" where
  "py_get d k dflt =
     (case d of
        PyDict kvs \<Rightarrow> (case map_of kvs k of None \<Rightarrow> dflt | Some v \<Rightarrow> v)
      | _ \<Rightarrow> dflt)"

section \<open>Strings\<close>

text \<open>
  \<open>str.lower\<close> on code points below 256: the ASCII capitals and the Latin-1 capitals
  (U+00C0 to U+00DE without the multiplication sign U+00D7) move up by 32, every other
  code point stays.
\<close>

definition lower_char :: "char \<Rightarrow> char" where
  "lower_char c =
     (let n = (of_char c :: nat)
      in if (65 \<le> n \<and> n \<le> 90) \<or> (192 \<le> n \<and> n \<le> 222 \<and> n \<noteq> 215)
         then char_of (n + 32) else c)"

definition py_lower :: "string \<Rightarrow> string" where
  "py_lower s = map lower_char s"

text \<open>\<open>needle in haystack\<close> for strings: the needle starts at some position.\<close>

definition starts_with :: "string \<Rightarrow> string \<Rightarrow> bool" where
  "starts_with s w = (take (length w) s = w)"

fun str_contains :: "string \<Rightarrow> string \<Rightarrow> bool" where
  "str_contains w [] = (w = [])"
| "str_contains w (c # cs) = (starts_with (c # cs) w \<or> str_contains w cs)"

section \<open>Legal content check (src/compliance_checker.py)\<close>

definition PROHIBITED_WORDS :: "string list" where
  "PROHIBITED_WORDS =
     [''free'', ''guarantee'', ''guaranteed'', ''miracle'', ''cure'', ''cures'',
      ''certified'', ''approved'', ''winner'', ''best'', ''number one'', ''#1'',
      ''risk-free'', ''no risk'', ''proven'', ''scientific breakthrough'',
      ''secret'', ''banned'', ''illegal'', ''FDA approved'']"

definition violation :: "string \<Rightarrow> pyval" where
  "violation word =
     PyDict [(''term'', PyStr word),
             (''reason'', PyStr ''Prohibited marketing claim''),
             (''severity'', PyStr ''high'')]"

text \<open>The loop over \<open>PROHIBITED_WORDS\<close>, appending a violation for each word found.\<close>

fun collect_violations :: "string list \<Rightarrow> string \<Rightarrow> pyval list \<Rightarrow> pyval list" where
  "collect_violations [] text_lower violations = violations"
| "collect_violations (word # ws) text_lower violations =
     (if str_contains word text_lower
      then collect_violations ws text_lower (violations @ [violation word])
      else collect_violations ws text_lower violations)"

definition check_legal_content :: "string \<Rightarrow> pyval" where
  "check_legal_content text =
     (let violations = collect_violations PROHIBITED_WORDS (py_lower text) [];
          compliant = (length violations = 0)
      in PyDict [(''compliant'', PyBool compliant),
                 (''violations'', PyList violations),
                 (''text_checked'', PyStr text)])"

text \<open>
  The legal check as the specification words it: a case-insensitive substring match
  of the message against every term of the list, so both sides are lowered.
\<close>

definition spec_matched_terms :: "string \<Rightarrow> string list" where
  "spec_matched_terms text =
     filter (\<lambda>word. str_contains (py_lower word) (py_lower text)) PROHIBITED_WORDS"

definition violation_terms :: "pyval \<Rightarrow> string list" where
  "violation_terms result =
     (case py_get result ''violations'' PyNone of
        PyList vs \<Rightarrow> concat (map (\<lambda>v. case py_get v ''term'' PyNone of PyStr t \<Rightarrow> [t] | _ \<Rightarrow> []) vs)
      | _ \<Rightarrow> [])"


section \<open>Text contrast (src/compliance_checker.py, check_text_contrast)\<close>

text \<open>
  The nested function \<open>luminance\<close>: each channel is divided by 255 and linearised,
  then the three are weighted.  \<open>**\<close> with a positive base is \<open>powr\<close>.
\<close>

definition linearize :: "real \<Rightarrow> real" where
  "linearize c = (if c \<le> 0.03928 then c / 12.92 else ((c + 0.055) / 1.055) powr 2.4)"

definition luminance :: "int \<times> int \<times> int \<Rightarrow> real" where
  "luminance color =
     (case color of (r, g, b) \<Rightarrow>
        let rgb = map (\<lambda>c. real_of_int c / 255.0) [r, g, b];
            rgb = map linearize rgb
        in 0.2126 * rgb ! 0 + 0.7152 * rgb ! 1 + 0.0722 * rgb ! 2)"

text \<open>\<open>round(x, 2)\<close>: to the nearest hundredth, a tie to the even one.\<close>

definition py_round2 :: "real \<Rightarrow> real" where
  "py_round2 x =
     (let y = x * 100; f = \<lfloor>y\<rfloor>; d = y - of_int f
      in (if d < 1 / 2 then of_int f
          else if 1 / 2 < d then of_int (f + 1)
          else if even f then of_int f else of_int (f + 1)) / 100)"

text \<open>The ratio before rounding; a zero divisor raises ZeroDivisionError.\<close>

definition contrast_ratio :: "int \<times> int \<times> int \<Rightarrow> int \<times> int \<times> int \<Rightarrow> py_error + real" where
  "contrast_ratio text_color bg_color =
     (let l1 = luminance text_color;
          l2 = luminance bg_color
      in if l2 < l1
         then (if l2 + 0.05 = 0 then Inl ZeroDivisionError else Inr ((l1 + 0.05) / (l2 + 0.05)))
         else (if l1 + 0.05 = 0 then Inl ZeroDivisionError else Inr ((l2 + 0.05) / (l1 + 0.05))))"

definition check_text_contrast :: "int \<times> int \<times> int \<Rightarrow> int \<times> int \<times> int \<Rightarrow> py_error + pyval" where
  "check_text_contrast text_color bg_color =
     (case contrast_ratio text_color bg_color of
        Inl e \<Rightarrow> Inl e
      | Inr ratio \<Rightarrow>
          Inr (PyDict [(''ratio'', PyFloat (py_round2 ratio)),
                       (''passes_aa'', PyBool (4.5 \<le> ratio)),
                       (''passes_aaa'', PyBool (7.0 \<le> ratio)),
                       (''recommendation'',
                          PyStr (if 4.5 \<le> ratio then ''Compliant'' else ''Increase contrast''))]))"

definition is_rgb :: "int \<times> int \<times> int \<Rightarrow> bool" where
  "is_rgb color = (case color of (r, g, b) \<Rightarrow>
     0 \<le> r \<and> r \<le> 255 \<and> 0 \<le> g \<and> g \<le> 255 \<and> 0 \<le> b \<and> b \<le> 255)"


text \<open>
  The relative luminance as the specification words it, to compare with the one of the
  program: each channel, as a fraction of 255, goes through the sRGB curve
  (\<open>c / 12.92\<close> if \<open>c \<le> 0.03928\<close>, otherwise \<open>((c + 0.055) / 1.055) ^ 2.4\<close>), and
  the three are combined as \<open>0.2126 R + 0.7152 G + 0.0722 B\<close>.
\<close>

definition spec_linearize :: "real \<Rightarrow> real" where
  "spec_linearize c = (if c \<le> 0.03928 then c / 12.92 else ((c + 0.055) / 1.055) powr 2.4)"

definition spec_luminance :: "int \<times> int \<times> int \<Rightarrow> real" where
  "spec_luminance color = (case color of (r, g, b) \<Rightarrow>
     0.2126 * spec_linearize (real_of_int r / 255)
       + 0.7152 * spec_linearize (real_of_int g / 255)
       + 0.0722 * spec_linearize (real_of_int b / 255))"

section \<open>Floating point numbers\<close>

text \<open>
  A Python float is an IEEE 754 double, and a double is kept here as the real number it
  stands for.  The two scaling computations of the composer (in \<open>resize_for_ratio\<close> and
  in \<open>_load_logo\<close>) divide two integers, multiply an integer by the quotient and
  truncate the product with \<open>int(x)\<close>.  There the rounding of each operation decides
  the number of pixels (a 535 by 535 image scaled for 1x1 becomes 1080 by 1079, a 281 by
  281 logo becomes 149 by 149), so these operations are modelled with their rounding:
  \<open>round_double\<close> takes a real to the nearest number with a significand of 53 bits, a
  tie to the even significand.  The exponent is not bounded: quotients and products of
  image sides, which the imaging library keeps below \<open>2 ^ 31\<close>, are far from overflow
  and underflow.  The text layout and the contrast check are computed on the reals,
  without rounding.
\<close>

text \<open>The number of binary digits of a positive integer, \<open>int.bit_length\<close>.\<close>

function bit_length :: "int \<Rightarrow> int" where
  "bit_length n = (if n \<le> 0 then 0 else 1 + bit_length (n div 2))"
  by pat_completeness auto
termination by (relation "measure nat") auto

declare bit_length.simps [simp del]

text \<open>To the nearest integer, a tie to the even one.\<close>

definition round_half_even :: "real \<Rightarrow> int" where
  "round_half_even y =
     (let f = \<lfloor>y\<rfloor>; d = y - of_int f
      in if d < 1 / 2 then f else if 1 / 2 < d then f + 1 else if even f then f else f + 1)"

text \<open>
  The nearest double: the absolute value is scaled by the power of two \<open>2 ^ e\<close> that
  brings it between \<open>2 ^ 52\<close> and \<open>2 ^ 53\<close>, rounded to an integer and scaled back.
\<close>

definition round_double :: "real \<Rightarrow> real" where
  "round_double x =
     (if x = 0 then 0
      else
        let a = \<bar>x\<bar>;
            e = (if 1 \<le> a then bit_length \<lfloor>a\<rfloor> - 53 else - bit_length \<lfloor>1 / a\<rfloor> - 52);
            m = (if 0 \<le> e then of_int (round_half_even (a / 2 ^ nat e)) * 2 ^ nat e
                 else of_int (round_half_even (a * 2 ^ nat (- e))) / 2 ^ nat (- e))
        in if 0 < x then m else - m)"

text \<open>\<open>int(x)\<close> of a float truncates towards zero.\<close>

definition py_int :: "real \<Rightarrow> int" where
  "py_int x = (if 0 \<le> x then \<lfloor>x\<rfloor> else \<lceil>x\<rceil>)"

text \<open>
  \<open>a / b\<close> for two integers is the correctly rounded quotient (the caller has excluded
  a zero divisor); \<open>a * x\<close> for an integer and a float converts the integer first.
\<close>

definition int_truediv :: "int \<Rightarrow> int \<Rightarrow> real" where
  "int_truediv a b = round_double (real_of_int a / real_of_int b)"

definition int_times_float :: "int \<Rightarrow> real \<Rightarrow> real" where
  "int_times_float a x = round_double (round_double (real_of_int a) * x)"

text \<open>The largest relative error of one rounding.\<close>

definition unit_roundoff :: real where
  "unit_roundoff = 1 / 2 ^ 53"

section \<open>The imaging library and the file system\<close>

text \<open>
  The program works on images of the imaging library.  An image has a width, a height
  and a colour mode; its pixel buffer is kept symbolic, as the history of the library
  operations that produced it, so two images with the same history have the same
  pixels.  Image objects are mutable and shared by reference: they live in a heap, and
  a reference is an index into it.  Measuring a text, converting between colour modes
  and pasting are taken to succeed, and memory is taken to suffice.
\<close>

datatype draw_op =
    Rectangle "int list" "int list"
  | DrawText "int \<times> int" string int "int list"

datatype raster =
    Pixels nat
  | Converted string raster
  | Resized int int raster
  | Cropped int int int int raster
  | Drawn draw_op raster
  | Pasted raster "int \<times> int" raster

record image =
  width :: int
  height :: int
  mode :: string
  raster :: raster

text \<open>
  The world outside the program: the heap of image objects, the image files that can
  be decoded, which paths exist, their modification times, and which directories and
  files can be written.
\<close>

record world =
  heap :: "image list"
  disk :: "string \<Rightarrow> image option"
  path_exists :: "string \<Rightarrow> bool"
  mtime :: "string \<Rightarrow> real option"
  mkdir_ok :: "string \<Rightarrow> bool"
  writable :: "string \<Rightarrow> bool"

text \<open>
  What the libraries compute and the model leaves open: joining a path with a name,
  the bounding box of a text in the font chosen for a font size, parsing a colour
  string, and the two pixel statistics of the compliance checker (how many of the
  first ten distinct logo colours have a close pixel in the image, with the number of
  distinct logo colours; whether a hexadecimal colour has a close pixel in the image).
\<close>

record platform =
  joinpath :: "string \<Rightarrow> string \<Rightarrow> string"
  textbbox :: "int \<Rightarrow> string \<Rightarrow> int \<times> int \<times> int \<times> int"
  getrgb :: "string \<Rightarrow> int list option"
  logo_color_matches :: "image \<Rightarrow> image \<Rightarrow> py_error + (nat \<times> nat)"
  brand_color_found :: "image \<Rightarrow> string \<Rightarrow> py_error + bool"

type_synonym brand_config = "string \<Rightarrow> string option"

definition alloc :: "world \<Rightarrow> image \<Rightarrow> nat \<times> world" where
  "alloc w img = (length (heap w), w\<lparr>heap := heap w @ [img]\<rparr>)"

definition deref :: "world \<Rightarrow> nat \<Rightarrow> image" where
  "deref w a = heap w ! a"

definition store :: "world \<Rightarrow> nat \<Rightarrow> image \<Rightarrow> world" where
  "store w a img = w\<lparr>heap := (heap w)[a := img]\<rparr>"

text \<open>\<open>Image.open\<close>: a new image object, or an error for a file that cannot be decoded.\<close>

definition image_open :: "world \<Rightarrow> string \<Rightarrow> py_error + (nat \<times> world)" where
  "image_open w path =
     (case disk w path of
        None \<Rightarrow> Inl (IOError path)
      | Some img \<Rightarrow> Inr (alloc w img))"

definition image_convert :: "world \<Rightarrow> nat \<Rightarrow> string \<Rightarrow> nat \<times> world" where
  "image_convert w a m =
     (let img = deref w a
      in alloc w (img\<lparr>mode := m, raster := Converted m (raster img)\<rparr>))"

definition image_copy :: "world \<Rightarrow> nat \<Rightarrow> nat \<times> world" where
  "image_copy w a = alloc w (deref w a)"

text \<open>
  \<open>Image.resize\<close> returns a copy when the size does not change and refuses a size
  below one pixel; the result is a new object.
\<close>

definition resized_image :: "image \<Rightarrow> int \<times> int \<Rightarrow> image" where
  "resized_image img new_size =
     img\<lparr>width := fst new_size, height := snd new_size,
         raster := Resized (fst new_size) (snd new_size) (raster img)\<rparr>"

definition image_resize :: "world \<Rightarrow> nat \<Rightarrow> int \<times> int \<Rightarrow> py_error + (nat \<times> world)" where
  "image_resize w a new_size =
     (let img = deref w a
      in if (width img, height img) = new_size then Inr (image_copy w a)
         else if fst new_size < 1 \<or> snd new_size < 1
         then Inl (ValueError ''height and width must be > 0'')
         else Inr (alloc w (resized_image img new_size)))"

text \<open>
  \<open>Image.crop\<close> refuses a box whose right or lower edge lies before the left or
  upper one; otherwise the result is a new object of the size of the box, also where
  the box leaves the image.
\<close>

definition cropped_image :: "image \<Rightarrow> int \<times> int \<times> int \<times> int \<Rightarrow> image" where
  "cropped_image img box =
     (case box of (x0, y0, x1, y1) \<Rightarrow>
        img\<lparr>width := x1 - x0, height := y1 - y0, raster := Cropped x0 y0 x1 y1 (raster img)\<rparr>)"

definition image_crop :: "world \<Rightarrow> nat \<Rightarrow> int \<times> int \<times> int \<times> int \<Rightarrow> py_error + (nat \<times> world)" where
  "image_crop w a box =
     (case box of (x0, y0, x1, y1) \<Rightarrow>
        let img = deref w a
        in if x1 < x0 then Inl (ValueError ''Coordinate right is less than left'')
           else if y1 < y0 then Inl (ValueError ''Coordinate lower is less than upper'')
           else Inr (alloc w (cropped_image img box)))"

text \<open>
  Drawing and pasting change the object they are called on.  A drawing layer in mode
  \<open>RGBA\<close> exists for images of mode \<open>RGB\<close> or \<open>RGBA\<close> only, and on these a colour is a
  tuple of three or four numbers; anything else raises.
\<close>

definition draw_mode_ok :: "image \<Rightarrow> bool" where
  "draw_mode_ok img = (mode img = ''RGB'' \<or> mode img = ''RGBA'')"

definition ink_ok :: "int list \<Rightarrow> bool" where
  "ink_ok fill = (length fill = 3 \<or> length fill = 4)"

fun ink_of :: "draw_op \<Rightarrow> int list" where
  "ink_of (Rectangle box fill) = fill"
| "ink_of (DrawText xy line font_size fill) = fill"

definition draw :: "world \<Rightarrow> nat \<Rightarrow> draw_op \<Rightarrow> py_error + world" where
  "draw w a op =
     (if ink_ok (ink_of op)
      then (let img = deref w a in Inr (store w a (img\<lparr>raster := Drawn op (raster img)\<rparr>)))
      else Inl TypeError)"

definition image_paste :: "world \<Rightarrow> nat \<Rightarrow> nat \<Rightarrow> int \<times> int \<Rightarrow> world" where
  "image_paste w a sprite xy =
     (let img = deref w a
      in store w a (img\<lparr>raster := Pasted (raster (deref w sprite)) xy (raster img)\<rparr>))"

text \<open>\<open>Image.save\<close>: the file then decodes to the image, or an error.\<close>

definition image_save :: "world \<Rightarrow> nat \<Rightarrow> string \<Rightarrow> py_error + world" where
  "image_save w a path =
     (if writable w path
      then Inr (w\<lparr>disk := (disk w)(path \<mapsto> deref w a),
                    path_exists := (path_exists w)(path := True)\<rparr>)
      else Inl (IOError path))"

section \<open>Logo and brand colour checks (src/compliance_checker.py)\<close>

definition str_of_error :: "py_error \<Rightarrow> string" where
  "str_of_error e =
     (case e of
        KeyError k \<Rightarrow> k
      | TypeError \<Rightarrow> ''type error''
      | FileNotFoundError p \<Rightarrow> p
      | ValueError m \<Rightarrow> m
      | ZeroDivisionError \<Rightarrow> ''division by zero''
      | IOError p \<Rightarrow> p)"

text \<open>The body of the \<open>try\<close> block of \<open>check_logo_presence\<close>.\<close>

definition logo_presence_try :: "platform \<Rightarrow> world \<Rightarrow> string \<Rightarrow> string \<Rightarrow> py_error + pyval" where
  "logo_presence_try P w image_path logo_path =
     (case image_open w image_path of
        Inl e \<Rightarrow> Inl e
      | Inr (a, w1) \<Rightarrow>
          let (image, w2) = image_convert w1 a ''RGB''
          in (case image_open w2 logo_path of
                Inl e \<Rightarrow> Inl e
              | Inr (b, w3) \<Rightarrow>
                  let (logo, w4) = image_convert w3 b ''RGB''
                  in if real_of_int (width (deref w4 image)) * 0.3 \<le> real_of_int (width (deref w4 logo))
                     then Inr (PyDict [(''detected'', PyNone),
                                       (''confidence'', PyFloat 0.0),
                                       (''message'', PyStr ''Logo template too large for detection'')])
                     else (case logo_color_matches P (deref w4 image) (deref w4 logo) of
                             Inl e \<Rightarrow> Inl e
                           | Inr (color_matches, unique_logo_colors) \<Rightarrow>
                               if min 10 unique_logo_colors = 0 then Inl ZeroDivisionError
                               else
                                 let confidence = real color_matches / real (min 10 unique_logo_colors);
                                     detected = (0.5 < confidence)
                                 in Inr (PyDict [(''detected'', PyBool detected),
                                                 (''confidence'', PyFloat confidence),
                                                 (''message'',
                                                    PyStr (if detected then ''Logo likely present''
                                                           else ''Logo may not be present''))]))))"

definition check_logo_presence ::
    "platform \<Rightarrow> world \<Rightarrow> brand_config \<Rightarrow> string \<Rightarrow> string option \<Rightarrow> pyval" where
  "check_logo_presence P w brand_config image_path logo_path =
     (let logo_path = (case logo_path of None \<Rightarrow> brand_config ''logo_path'' | Some p \<Rightarrow> Some p)
      in case logo_path of
           None \<Rightarrow> PyDict [(''detected'', PyNone),
                            (''confidence'', PyFloat 0.0),
                            (''message'', PyStr ''Logo template not available for checking'')]
         | Some p \<Rightarrow>
             if p = [] \<or> \<not> path_exists w p
             then PyDict [(''detected'', PyNone),
                          (''confidence'', PyFloat 0.0),
                          (''message'', PyStr ''Logo template not available for checking'')]
             else (case logo_presence_try P w image_path p of
                     Inr result \<Rightarrow> result
                   | Inl e \<Rightarrow>
                       PyDict [(''detected'', PyNone),
                               (''confidence'', PyFloat 0.0),
                               (''message'', PyStr (''Error during detection: '' @ str_of_error e))]))"

text \<open>The loop of \<open>validate_brand_colors\<close> over the brand colours.\<close>

fun find_colors :: "platform \<Rightarrow> image \<Rightarrow> string list \<Rightarrow> string list \<Rightarrow> py_error + string list" where
  "find_colors P img [] colors_found = Inr colors_found"
| "find_colors P img (hex_color # cs) colors_found =
     (let hex_color = dropWhile (\<lambda>c. c = CHR ''#'') hex_color
      in case brand_color_found P img hex_color of
           Inl e \<Rightarrow> Inl e
         | Inr found \<Rightarrow>
             find_colors P img cs (if found then colors_found @ [hex_color] else colors_found))"

definition brand_colors_try :: "platform \<Rightarrow> world \<Rightarrow> string \<Rightarrow> string list \<Rightarrow> py_error + pyval" where
  "brand_colors_try P w image_path brand_colors =
     (case image_open w image_path of
        Inl e \<Rightarrow> Inl e
      | Inr (a, w1) \<Rightarrow>
          let (image, w2) = image_convert w1 a ''RGB''
          in (case find_colors P (deref w2 image) brand_colors [] of
                Inl e \<Rightarrow> Inl e
              | Inr colors_found \<Rightarrow>
                  let compliant = (0 < length colors_found)
                  in Inr (PyDict [(''compliant'', PyBool compliant),
                                  (''brand_colors_checked'', PyList (map PyStr brand_colors)),
                                  (''colors_detected'', PyList (map PyStr colors_found)),
                                  (''detection_rate'',
                                     PyFloat (real (length colors_found) / real (length brand_colors)))])))"

definition truthy_strings :: "string option list \<Rightarrow> string list" where
  "truthy_strings cs = concat (map (\<lambda>c. case c of None \<Rightarrow> [] | Some s \<Rightarrow> if s = [] then [] else [s]) cs)"

definition validate_brand_colors ::
    "platform \<Rightarrow> world \<Rightarrow> brand_config \<Rightarrow> string \<Rightarrow> string list option \<Rightarrow> pyval" where
  "validate_brand_colors P w brand_config image_path brand_colors =
     (let brand_colors =
            (case brand_colors of
               None \<Rightarrow> truthy_strings [brand_config ''primary_color'', brand_config ''secondary_color'']
             | Some cs \<Rightarrow> cs)
      in if brand_colors = []
         then PyDict [(''compliant'', PyNone),
                      (''message'', PyStr ''No brand colors configured for checking'')]
         else (case brand_colors_try P w image_path brand_colors of
                 Inr result \<Rightarrow> result
               | Inl e \<Rightarrow>
                   PyDict [(''compliant'', PyNone),
                           (''message'', PyStr (''Error during validation: '' @ str_of_error e))]))"

section \<open>Full compliance check (src/compliance_checker.py)\<close>

text \<open>Truth value of a Python value, and \<open>x and y\<close>, which returns one of its operands.\<close>

definition py_truthy :: "pyval \<Rightarrow> bool" where
  "py_truthy v =
     (case v of
        PyNone \<Rightarrow> False
      | PyBool b \<Rightarrow> b
      | PyFloat x \<Rightarrow> x \<noteq> 0
      | PyStr s \<Rightarrow> s \<noteq> []
      | PyList xs \<Rightarrow> xs \<noteq> []
      | PyDict kvs \<Rightarrow> kvs \<noteq> [])"

definition py_and :: "pyval \<Rightarrow> pyval \<Rightarrow> pyval" where
  "py_and x y = (if py_truthy x then y else x)"

definition is_not_False :: "pyval \<Rightarrow> pyval" where
  "is_not_False v = PyBool (v \<noteq> PyBool False)"

definition run_full_compliance_check ::
    "platform \<Rightarrow> world \<Rightarrow> brand_config \<Rightarrow> string \<Rightarrow> string \<Rightarrow> py_error + pyval" where
  "run_full_compliance_check P w brand_config image_path campaign_message =
     (case mtime w image_path of
        None \<Rightarrow> Inl (FileNotFoundError image_path)
      | Some timestamp \<Rightarrow>
          let legal_content = check_legal_content campaign_message;
              logo_presence = check_logo_presence P w brand_config image_path None;
              brand_colors = validate_brand_colors P w brand_config image_path None;
              checks = PyDict [(''legal_content'', legal_content),
                               (''logo_presence'', logo_presence),
                               (''brand_colors'', brand_colors)]
          in (case subscript legal_content ''compliant'' of
                Inl e \<Rightarrow> Inl e
              | Inr legal_ok \<Rightarrow>
                  let logo_ok = py_get logo_presence ''detected'' (PyBool True);
                      colors_ok = py_get brand_colors ''compliant'' (PyBool True);
                      overall = py_and legal_ok (py_and (is_not_False logo_ok) (is_not_False colors_ok))
                  in Inr (PyDict [(''image'', PyStr image_path),
                                  (''timestamp'', PyFloat timestamp),
                                  (''checks'', checks),
                                  (''overall_compliant'', overall)])))"

section \<open>A concrete platform and world\<close>

text \<open>
  A small platform (a fixed-pitch font whose characters are 3/5 of the font size wide,
  two known colours, no brand colour ever found), a world with one image file, and the
  same world with the image already decoded as object 0, used to evaluate the model on
  concrete inputs.
\<close>

definition example_platform :: platform where
  "example_platform =
     \<lparr>joinpath = (\<lambda>p s. p @ ''/'' @ s),
      textbbox = (\<lambda>font_size s. (0, 0, (font_size * 3 div 5) * int (length s), font_size)),
      getrgb = (\<lambda>s. if s = ''#FF5733'' then Some [255, 87, 51]
                     else if s = ''#FFFFFF'' then Some [255, 255, 255] else None),
      logo_color_matches = (\<lambda>img logo. Inr (0, 1)),
      brand_color_found = (\<lambda>img hex_color. Inr False)\<rparr>"

definition example_image :: image where
  "example_image = \<lparr>width = 2000, height = 1000, mode = ''RGB'', raster = Pixels 0\<rparr>"

definition example_world :: world where
  "example_world =
     \<lparr>heap = [],
      disk = (\<lambda>p. if p = ''hero.png'' then Some example_image else None),
      path_exists = (\<lambda>p. p = ''hero.png''),
      mtime = (\<lambda>p. if p = ''hero.png'' then Some 1 else None),
      mkdir_ok = (\<lambda>p. True),
      writable = (\<lambda>p. True)\<rparr>"

definition example_studio :: world where
  "example_studio = example_world\<lparr>heap := [example_image]\<rparr>"

definition no_brand :: brand_config where
  "no_brand = (\<lambda>k. None)"

definition red_brand :: brand_config where
  "red_brand = (\<lambda>k. if k = ''primary_color'' then Some ''#FF0000'' else None)"

section \<open>Splitting and joining strings\<close>

text \<open>
  \<open>str.split()\<close> without arguments cuts at runs of whitespace and returns no empty
  word.  Below code point 256 the whitespace characters are 9 to 13, 28 to 32, 133 and
  160.  \<open>sep.join(words)\<close> puts the separator between the words.
\<close>

definition is_space :: "char \<Rightarrow> bool" where
  "is_space c =
     (let n = (of_char c :: nat)
      in (9 \<le> n \<and> n \<le> 13) \<or> (28 \<le> n \<and> n \<le> 32) \<or> n = 133 \<or> n = 160)"

fun split_loop :: "string \<Rightarrow> string \<Rightarrow> string list" where
  "split_loop [] word = (if word = [] then [] else [word])"
| "split_loop (c # cs) word =
     (if is_space c
      then (if word = [] then split_loop cs [] else word # split_loop cs [])
      else split_loop cs (word @ [c]))"

definition py_split :: "string \<Rightarrow> string list" where
  "py_split s = split_loop s []"

fun py_join :: "string \<Rightarrow> string list \<Rightarrow> string" where
  "py_join sep [] = []"
| "py_join sep [x] = x"
| "py_join sep (x # y # zs) = x @ sep @ py_join sep (y # zs)"

section \<open>Creative composer (src/creative_composer.py)\<close>

record composer =
  brand_config :: brand_config
  logo :: "nat option"
  primary_color :: string
  secondary_color :: string
  font_color :: string

text \<open>
  \<open>_load_logo\<close>: every exception of the body is caught and gives \<open>None\<close>.  The
  division by the width or the height raises for a logo of size zero.
\<close>

definition load_logo :: "world \<Rightarrow> brand_config \<Rightarrow> nat option \<times> world" where
  "load_logo w cfg =
     (case cfg ''logo_path'' of
        None \<Rightarrow> (None, w)
      | Some logo_path \<Rightarrow>
          if \<not> path_exists w logo_path then (None, w)
          else (case image_open w logo_path of
                  Inl e \<Rightarrow> (None, w)
                | Inr (opened, w1) \<Rightarrow>
                    let (logo, w2) = (if mode (deref w1 opened) \<noteq> ''RGBA''
                                      then image_convert w1 opened ''RGBA'' else (opened, w1));
                        img = deref w2 logo;
                        max_logo_size = 150
                    in if width img = 0 \<or> height img = 0 then (None, w2)
                       else
                         let ratio = min (int_truediv max_logo_size (width img))
                                         (int_truediv max_logo_size (height img));
                             new_size = (py_int (int_times_float (width img) ratio),
                                         py_int (int_times_float (height img) ratio))
                         in (case image_resize w2 logo new_size of
                               Inl e \<Rightarrow> (None, w2)
                             | Inr (resized, w3) \<Rightarrow> (Some resized, w3))))"

definition get_or :: "brand_config \<Rightarrow> string \<Rightarrow> string \<Rightarrow> string" where
  "get_or cfg k dflt = (case cfg k of None \<Rightarrow> dflt | Some v \<Rightarrow> v)"

text \<open>The constructor: the logo is loaded only for a configured, non-empty logo path.\<close>

definition composer_init :: "world \<Rightarrow> brand_config \<Rightarrow> composer \<times> world" where
  "composer_init w cfg =
     (let (lg, w1) = (case cfg ''logo_path'' of
                        None \<Rightarrow> (None, w)
                      | Some p \<Rightarrow> if p = [] then (None, w) else load_logo w cfg)
      in (\<lparr>brand_config = cfg,
           logo = lg,
           primary_color = get_or cfg ''primary_color'' ''#FF5733'',
           secondary_color = get_or cfg ''secondary_color'' ''#3498DB'',
           font_color = get_or cfg ''font_color'' ''#FFFFFF''\<rparr>, w1))"

subsection \<open>resize_for_ratio\<close>

text \<open>
  The size of the scaled image, before the crop.  The two divisions by the height and
  by the width of the image raise ZeroDivisionError for a zero.
\<close>

definition scaled_size :: "int \<times> int \<Rightarrow> int \<times> int \<Rightarrow> py_error + (int \<times> int)" where
  "scaled_size image_size target =
     (case (image_size, target) of ((image_width, image_height), (target_width, target_height)) \<Rightarrow>
        if target_height = 0 \<or> image_height = 0 then Inl ZeroDivisionError
        else
          let target_ratio = int_truediv target_width target_height;
              current_ratio = int_truediv image_width image_height
          in if target_ratio < current_ratio
             then
               let scale = int_truediv target_height image_height;
                   new_width = py_int (int_times_float image_width scale);
                   new_height = target_height
               in Inr (new_width, new_height)
             else if image_width = 0 then Inl ZeroDivisionError
             else
               let scale = int_truediv target_width image_width;
                   new_width = target_width;
                   new_height = py_int (int_times_float image_height scale)
               in Inr (new_width, new_height))"

definition resize_for_ratio :: "world \<Rightarrow> nat \<Rightarrow> string \<Rightarrow> py_error + (nat \<times> world)" where
  "resize_for_ratio w image_obj ratio =
     (let (target_width, target_height) = get_output_size ratio;
          img = deref w image_obj
      in case scaled_size (width img, height img) (target_width, target_height) of
           Inl e \<Rightarrow> Inl e
         | Inr (new_width, new_height) \<Rightarrow>
             (case image_resize w image_obj (new_width, new_height) of
                Inl e \<Rightarrow> Inl e
              | Inr (resized, w1) \<Rightarrow>
                  let left = (new_width - target_width) div 2;
                      top' = (new_height - target_height) div 2;
                      right = left + target_width;
                      bottom = top' + target_height
                  in image_crop w1 resized (left, top', right, bottom)))"

subsection \<open>add_text_overlay\<close>

definition text_width :: "platform \<Rightarrow> int \<Rightarrow> string \<Rightarrow> int" where
  "text_width P font_size s = (case textbbox P font_size s of (x0, y0, x1, y1) \<Rightarrow> x1 - x0)"

text \<open>The word-wrap loop, with its two variables \<open>lines\<close> and \<open>current_line\<close>.\<close>

fun wrap_loop ::
    "(string \<Rightarrow> int) \<Rightarrow> int \<Rightarrow> string list \<Rightarrow> string list \<Rightarrow> string list \<Rightarrow> string list \<times> string list" where
  "wrap_loop measure_text max_text_width [] lines current_line = (lines, current_line)"
| "wrap_loop measure_text max_text_width (word # ws) lines current_line =
     (let test_line = py_join '' '' (current_line @ [word]);
          test_width = measure_text test_line
      in if test_width \<le> max_text_width
         then wrap_loop measure_text max_text_width ws lines (current_line @ [word])
         else if current_line \<noteq> []
         then wrap_loop measure_text max_text_width ws (lines @ [py_join '' '' current_line]) [word]
         else wrap_loop measure_text max_text_width ws (lines @ [word]) current_line)"

definition wrap_text :: "(string \<Rightarrow> int) \<Rightarrow> int \<Rightarrow> string \<Rightarrow> string list" where
  "wrap_text measure_text max_text_width text =
     (let words = py_split text;
          (lines, current_line) = wrap_loop measure_text max_text_width words [] []
      in if current_line \<noteq> [] then lines @ [py_join '' '' current_line] else lines)"

text \<open>The loop that takes the largest line width, starting from 0.\<close>

fun widest :: "(string \<Rightarrow> int) \<Rightarrow> string list \<Rightarrow> int \<Rightarrow> int" where
  "widest measure_text [] max_line_width = max_line_width"
| "widest measure_text (line # ls) max_line_width =
     widest measure_text ls (max max_line_width (measure_text line))"

record text_block =
  tb_lines :: "string list"
  tb_font_size :: int
  tb_max_text_width :: int
  tb_line_height :: int
  tb_x :: int
  tb_y :: int
  tb_bg_width :: int
  tb_bg_height :: int

text \<open>
  The layout that \<open>add_text_overlay\<close> computes before it draws: the wrapped lines, the
  size of the background panel and its clamped position.
\<close>

definition text_layout :: "platform \<Rightarrow> int \<times> int \<Rightarrow> string \<Rightarrow> string \<Rightarrow> py_error + text_block" where
  "text_layout P image_size text position =
     (case image_size of (image_width, image_height) \<Rightarrow>
        let min_dimension = min image_width image_height;
            max_text_width = py_int (real_of_int image_width * 0.85);
            font_size = py_int (real_of_int min_dimension * 0.08);
            lines = wrap_text (text_width P font_size) max_text_width text;
            line_height = py_int (real_of_int font_size * 1.3);
            total_text_height = int (length lines) * line_height;
            max_line_width = widest (text_width P font_size) lines 0;
            padding_x = 30;
            padding_y = 25;
            bg_width = max_line_width + padding_x * 2;
            bg_height = total_text_height + padding_y * 2
        in if image_height = 0 then Inl ZeroDivisionError
           else
             let aspect_ratio = real_of_int image_width / real_of_int image_height;
                 (x, y) =
                   (if position = ''bottom''
                    then
                      let x = (image_width - bg_width) div 2;
                          bottom_margin = (if aspect_ratio < 0.7
                                           then py_int (real_of_int image_height * 0.05) else 50);
                          y = image_height - bg_height - bottom_margin
                      in (x, y)
                    else if position = ''top''
                    then ((image_width - bg_width) div 2, 50)
                    else ((image_width - bg_width) div 2, (image_height - bg_height) div 2));
                 x = max 20 (min x (image_width - bg_width - 20));
                 y = max 20 (min y (image_height - bg_height - 20))
             in Inr \<lparr>tb_lines = lines, tb_font_size = font_size,
                      tb_max_text_width = max_text_width, tb_line_height = line_height,
                      tb_x = x, tb_y = y, tb_bg_width = bg_width, tb_bg_height = bg_height\<rparr>)"

text \<open>The drawing calls for one line: the shadow, the 24 outline stamps, the text.\<close>

definition outline_offsets :: "(int \<times> int) list" where
  "outline_offsets =
     filter (\<lambda>(offset_x, offset_y). offset_x \<noteq> 0 \<or> offset_y \<noteq> 0)
       (concat (map (\<lambda>offset_x. map (\<lambda>offset_y. (offset_x, offset_y)) [-2, -1, 0, 1, 2])
          [-2, -1, 0, 1, 2]))"

definition line_ops :: "int \<Rightarrow> int \<times> int \<Rightarrow> string \<Rightarrow> int list \<Rightarrow> draw_op list" where
  "line_ops font_size xy line text_color =
     (case xy of (text_x, text_y) \<Rightarrow>
        [DrawText (text_x + 3, text_y + 3) line font_size [0, 0, 0, 180]] @
        map (\<lambda>(offset_x, offset_y).
               DrawText (text_x + offset_x, text_y + offset_y) line font_size [0, 0, 0, 255])
            outline_offsets @
        [DrawText (text_x, text_y) line font_size text_color])"

fun text_ops :: "platform \<Rightarrow> text_block \<Rightarrow> int list \<Rightarrow> string list \<Rightarrow> int \<Rightarrow> draw_op list" where
  "text_ops P tb text_color [] text_y = []"
| "text_ops P tb text_color (line # ls) text_y =
     (let line_width = text_width P (tb_font_size tb) line;
          text_x = tb_x tb + (tb_bg_width tb - line_width) div 2
      in line_ops (tb_font_size tb) (text_x, text_y) line text_color @
         text_ops P tb text_color ls (text_y + tb_line_height tb))"

fun draw_all :: "world \<Rightarrow> nat \<Rightarrow> draw_op list \<Rightarrow> py_error + world" where
  "draw_all w a [] = Inr w"
| "draw_all w a (op # ops) =
     (case draw w a op of Inl e \<Rightarrow> Inl e | Inr w1 \<Rightarrow> draw_all w1 a ops)"

definition panel_color :: "platform \<Rightarrow> composer \<Rightarrow> int list" where
  "panel_color P self =
     (case getrgb P (primary_color self) of
        Some c \<Rightarrow> c @ [200]
      | None \<Rightarrow> [255, 87, 51, 200])"

definition fill_color :: "platform \<Rightarrow> composer \<Rightarrow> int list" where
  "fill_color P self =
     (case getrgb P (font_color self) of
        Some c \<Rightarrow> c
      | None \<Rightarrow> [255, 255, 255])"

definition add_text_overlay ::
    "platform \<Rightarrow> composer \<Rightarrow> world \<Rightarrow> nat \<Rightarrow> string \<Rightarrow> string \<Rightarrow> py_error + (nat \<times> world)" where
  "add_text_overlay P self w image_obj text position =
     (let (img_with_text, w1) = image_copy w image_obj;
          img = deref w image_obj
      in if \<not> draw_mode_ok img then Inl (ValueError ''mode mismatch'')
         else
           case text_layout P (width img, height img) text position of
             Inl e \<Rightarrow> Inl e
           | Inr tb \<Rightarrow>
               let bg_color = panel_color P self
               in case draw w1 img_with_text
                         (Rectangle [tb_x tb, tb_y tb, tb_x tb + tb_bg_width tb,
                                     tb_y tb + tb_bg_height tb] bg_color) of
                    Inl e \<Rightarrow> Inl e
                  | Inr w2 \<Rightarrow>
                      let padding_y = 25;
                          text_color = fill_color P self
                      in case draw_all w2 img_with_text
                                (text_ops P tb text_color (tb_lines tb) (tb_y tb + padding_y)) of
                           Inl e \<Rightarrow> Inl e
                         | Inr w3 \<Rightarrow> Inr (img_with_text, w3))"

subsection \<open>add_logo_overlay\<close>

definition add_logo_overlay :: "composer \<Rightarrow> world \<Rightarrow> nat \<Rightarrow> string \<Rightarrow> nat \<times> world" where
  "add_logo_overlay self w image_obj position =
     (case logo self of
        None \<Rightarrow> (image_obj, w)
      | Some lg \<Rightarrow>
          let (img_with_logo, w1) = image_copy w image_obj;
              img = deref w image_obj;
              sprite = deref w lg;
              padding = 30;
              (x, y) =
                (if position = ''top-right'' then (width img - width sprite - padding, padding)
                 else if position = ''top-left'' then (padding, padding)
                 else if position = ''bottom-right''
                 then (width img - width sprite - padding, height img - height sprite - padding)
                 else (padding, height img - height sprite - padding))
          in (img_with_logo, image_paste w1 img_with_logo lg (x, y)))"

subsection \<open>create_variations\<close>

text \<open>The loop over the ratios, with the list of the paths written so far.\<close>

fun variations_loop ::
    "platform \<Rightarrow> composer \<Rightarrow> world \<Rightarrow> nat \<Rightarrow> string \<Rightarrow> string \<Rightarrow> string list \<Rightarrow> string list
      \<Rightarrow> py_error + (string list \<times> world)" where
  "variations_loop P self w hero_image campaign_message product_folder [] generated_paths =
     Inr (generated_paths, w)"
| "variations_loop P self w hero_image campaign_message product_folder (ratio # rs) generated_paths =
     (let (copied, w1) = image_copy w hero_image
      in case resize_for_ratio w1 copied ratio of
           Inl e \<Rightarrow> Inl e
         | Inr (resized, w2) \<Rightarrow>
             (case add_text_overlay P self w2 resized campaign_message ''bottom'' of
                Inl e \<Rightarrow> Inl e
              | Inr (with_text, w3) \<Rightarrow>
                  let (final, w4) = (if logo self \<noteq> None
                                     then add_logo_overlay self w3 with_text ''top-right''
                                     else (with_text, w3));
                      output_path = joinpath P product_folder (ratio @ ''.png'')
                  in (case image_save w4 final output_path of
                        Inl e \<Rightarrow> Inl e
                      | Inr w5 \<Rightarrow>
                          variations_loop P self w5 hero_image campaign_message product_folder rs
                            (generated_paths @ [output_path]))))"

definition create_variations ::
    "platform \<Rightarrow> composer \<Rightarrow> world \<Rightarrow> string \<Rightarrow> string \<Rightarrow> string \<Rightarrow> string \<Rightarrow> string list option
      \<Rightarrow> py_error + (string list \<times> world)" where
  "create_variations P self w hero_image_path campaign_message product_id output_folder ratios =
     (let ratios = (case ratios of None \<Rightarrow> all_formats | Some rs \<Rightarrow> rs)
      in case image_open w hero_image_path of
           Inl e \<Rightarrow> Inl e
         | Inr (opened, w1) \<Rightarrow>
             let (hero_image, w2) = (if mode (deref w1 opened) \<noteq> ''RGB''
                                     then image_convert w1 opened ''RGB'' else (opened, w1));
                 product_folder = joinpath P output_folder product_id
             in if \<not> mkdir_ok w2 product_folder then Inl (IOError product_folder)
                else
                  let w3 = w2\<lparr>path_exists := (path_exists w2)(product_folder := True)\<rparr>
                  in variations_loop P self w3 hero_image campaign_message product_folder ratios [])"

section \<open>Words, and a message with a long word\<close>

text \<open>A word has at least one character and no whitespace.\<close>

definition word_ok :: "string \<Rightarrow> bool" where
  "word_ok w = (w \<noteq> [] \<and> (\<forall>c \<in> set w. \<not> is_space c))"

definition long_word_text :: string where
  "long_word_text = ''Get fit this spring, with the Supercalifragilisticexpialidocious offer''"

definition long_word_block :: text_block where
  "long_word_block =
     \<lparr>tb_lines = [''Get fit this'', ''spring, with the'', ''Supercalifragilisticexpialidocious'', ''offer''],
      tb_font_size = 86, tb_max_text_width = 918, tb_line_height = 111,
      tb_x = 20, tb_y = 536, tb_bg_width = 1794, tb_bg_height = 494\<rparr>"

text \<open>
  A square image of the size that \<open>resize_for_ratio\<close> returns for 1x1, alone in the
  heap of the example world, and the composer of an empty brand configuration.
\<close>

definition square_image :: image where
  "square_image = \<lparr>width = 1080, height = 1080, mode = ''RGB'', raster = Pixels 1\<rparr>"

definition square_studio :: world where
  "square_studio = example_world\<lparr>heap := [square_image]\<rparr>"

definition plain_composer :: composer where
  "plain_composer = fst (composer_init example_world no_brand)"

section \<open>A composer with a logo\<close>

text \<open>
  A brand configuration whose logo is the image file of the example world, the composer
  built from it and the world after its construction.
\<close>

definition logo_brand :: brand_config where
  "logo_brand = (\<lambda>k. if k = ''logo_path'' then Some ''hero.png'' else None)"

definition branded_composer :: composer where
  "branded_composer = fst (composer_init example_studio logo_brand)"

definition branded_studio :: world where
  "branded_studio = snd (composer_init example_studio logo_brand)"

text \<open>The drawing calls made on an image since its last transformation, oldest first.\<close>

fun drawn_ops :: "raster \<Rightarrow> draw_op list" where
  "drawn_ops (Drawn op r) = drawn_ops r @ [op]"
| "drawn_ops (Pixels n) = []"
| "drawn_ops (Converted m r) = []"
| "drawn_ops (Resized nw nh r) = []"
| "drawn_ops (Cropped x0 y0 x1 y1 r) = []"
| "drawn_ops (Pasted sprite xy r) = []"

section \<open>Properties of the aspect-ratio policy\<close>

lemma output_keys: "map fst OUTPUT_DIMENSIONS = [''1x1'', ''9x16'', ''16x9'', ''4x5'', ''2x3'']"
  by (simp add: OUTPUT_DIMENSIONS_def)

lemma generation_keys:
  "map fst GENERATION_DIMENSIONS = [''1x1'', ''9x16'', ''16x9'', ''4x3'', ''3x4'']"
  by (simp add: GENERATION_DIMENSIONS_def)

lemma flux_keys: "map fst FLUX_FORMATS = [''1x1'', ''9x16'', ''16x9'', ''4x3'', ''3x4'']"
  by (simp add: FLUX_FORMATS_def)

lemma dict_get_missing: "k \<notin> set (map fst d) \<Longrightarrow> dict_get d k dflt = dflt"
proof -
  assume "k \<notin> set (map fst d)"
  then have "map_of d k = None" by (simp add: map_of_eq_None_iff)
  then show ?thesis by (simp add: dict_get_def)
qed

lemma dict_get_present:
  "distinct (map fst d) \<Longrightarrow> (k, v) \<in> set d \<Longrightarrow> dict_get d k dflt = v"
  by (simp add: dict_get_def)

lemma output_size_positive: "0 < fst (get_output_size r) \<and> 0 < snd (get_output_size r)"
  by (simp add: get_output_size_def dict_get_def OUTPUT_DIMENSIONS_def)

lemma output_size_range:
  "1080 \<le> fst (get_output_size r) \<and> fst (get_output_size r) \<le> 1920 \<and>
   1080 \<le> snd (get_output_size r) \<and> snd (get_output_size r) \<le> 1920"
  by (simp add: get_output_size_def dict_get_def OUTPUT_DIMENSIONS_def)

text \<open>
  C4 (counterexample).  The claim names \<open>landscape\<close> as the provider format token
  returned for a name outside the table; \<open>get_flux_format\<close> returns
  \<open>landscape_16_9\<close> there.
\<close>

theorem C4_flux_default_counterexample:
  "''7x7'' \<notin> set (map fst FLUX_FORMATS) \<and> get_flux_format ''7x7'' \<noteq> ''landscape''"
  by (simp add: get_flux_format_def dict_get_def FLUX_FORMATS_def)

text \<open>
  C4 (amended).  Each lookup has its own table.  A name that is not a key of a lookup's
  table gets that lookup's default: output size (1080, 1080), generation size
  (1920, 1080), provider format \<open>landscape_16_9\<close>.  A name that is a key gets the
  entry of the table, and no table has a key twice, so a name has exactly one entry.
\<close>

theorem C4_lookup_defaults:
  "(name \<notin> set (map fst OUTPUT_DIMENSIONS) \<longrightarrow> get_output_size name = (1080, 1080)) \<and>
   (name \<notin> set (map fst GENERATION_DIMENSIONS) \<longrightarrow> get_generation_size name = (1920, 1080)) \<and>
   (name \<notin> set (map fst FLUX_FORMATS) \<longrightarrow> get_flux_format name = ''landscape_16_9'') \<and>
   ((name, sz) \<in> set OUTPUT_DIMENSIONS \<longrightarrow> get_output_size name = sz) \<and>
   ((name, gsz) \<in> set GENERATION_DIMENSIONS \<longrightarrow> get_generation_size name = gsz) \<and>
   ((name, tok) \<in> set FLUX_FORMATS \<longrightarrow> get_flux_format name = tok) \<and>
   distinct (map fst OUTPUT_DIMENSIONS) \<and>
   distinct (map fst GENERATION_DIMENSIONS) \<and>
   distinct (map fst FLUX_FORMATS)"
proof -
  have d1: "distinct (map fst OUTPUT_DIMENSIONS)" by (simp add: output_keys)
  have d2: "distinct (map fst GENERATION_DIMENSIONS)" by (simp add: generation_keys)
  have d3: "distinct (map fst FLUX_FORMATS)" by (simp add: flux_keys)
  show ?thesis
    unfolding get_output_size_def get_generation_size_def get_flux_format_def
    using d1 d2 d3 by (auto intro: dict_get_missing dict_get_present)
qed

theorem C4_lookup_defaults_witness:
  "get_output_size ''4x3'' = (1080, 1080) \<and>
   get_generation_size ''4x5'' = (1920, 1080) \<and>
   get_flux_format ''2x3'' = ''landscape_16_9'' \<and>
   get_output_size ''9x16'' = (1080, 1920) \<and>
   get_generation_size ''1x1'' = (1024, 1024) \<and>
   get_flux_format ''3x4'' = ''portrait_3_4''"
proof -
  have a: "''4x3'' \<notin> set (map fst OUTPUT_DIMENSIONS)" by (simp add: output_keys)
  have b: "(''9x16'', (1080, 1920)) \<in> set OUTPUT_DIMENSIONS" by (simp add: OUTPUT_DIMENSIONS_def)
  have c: "''4x5'' \<notin> set (map fst GENERATION_DIMENSIONS)" by (simp add: generation_keys)
  have d: "(''1x1'', (1024, 1024)) \<in> set GENERATION_DIMENSIONS"
    by (simp add: GENERATION_DIMENSIONS_def)
  have e: "''2x3'' \<notin> set (map fst FLUX_FORMATS)" by (simp add: flux_keys)
  have f: "(''3x4'', ''portrait_3_4'') \<in> set FLUX_FORMATS" by (simp add: FLUX_FORMATS_def)
  have 1: "get_output_size ''4x3'' = (1080, 1080)"
    by (rule C4_lookup_defaults [of "''4x3''", THEN conjunct1, THEN mp, OF a])
  have 2: "get_generation_size ''4x5'' = (1920, 1080)"
    by (rule C4_lookup_defaults [of "''4x5''", THEN conjunct2, THEN conjunct1, THEN mp, OF c])
  have 3: "get_flux_format ''2x3'' = ''landscape_16_9''"
    by (rule C4_lookup_defaults [of "''2x3''", THEN conjunct2, THEN conjunct2, THEN conjunct1,
          THEN mp, OF e])
  have 4: "get_output_size ''9x16'' = (1080, 1920)"
    by (rule C4_lookup_defaults [THEN conjunct2, THEN conjunct2, THEN conjunct2, THEN conjunct1,
          THEN mp, OF b])
  have 5: "get_generation_size ''1x1'' = (1024, 1024)"
    by (rule C4_lookup_defaults [THEN conjunct2, THEN conjunct2, THEN conjunct2, THEN conjunct2,
          THEN conjunct1, THEN mp, OF d])
  have 6: "get_flux_format ''3x4'' = ''portrait_3_4''"
    by (rule C4_lookup_defaults [THEN conjunct2, THEN conjunct2, THEN conjunct2, THEN conjunct2,
          THEN conjunct2, THEN conjunct1, THEN mp, OF f])
  from 1 2 3 4 5 6 show ?thesis by (intro conjI)
qed

section \<open>Properties of the legal content check\<close>

lemma starts_with_iff: "starts_with s w \<longleftrightarrow> (\<exists>r. s = w @ r)"
  unfolding starts_with_def
  by (metis append_eq_conv_conj append_take_drop_id)

lemma str_contains_iff: "str_contains w t \<longleftrightarrow> (\<exists>p s. t = p @ w @ s)"
proof (induction t)
  case Nil
  then show ?case by auto
next
  case (Cons c cs)
  show ?case
  proof
    assume "str_contains w (c # cs)"
    then consider "starts_with (c # cs) w" | "str_contains w cs" by auto
    then show "\<exists>p s. c # cs = p @ w @ s"
    proof cases
      case 1
      then obtain r where "c # cs = w @ r" by (auto simp: starts_with_iff)
      then have "c # cs = [] @ w @ r" by simp
      then show ?thesis by blast
    next
      case 2
      then obtain p s where "cs = p @ w @ s" using Cons.IH by auto
      then have "c # cs = (c # p) @ w @ s" by simp
      then show ?thesis by blast
    qed
  next
    assume "\<exists>p s. c # cs = p @ w @ s"
    then obtain p s where ps: "c # cs = p @ w @ s" by auto
    show "str_contains w (c # cs)"
    proof (cases p)
      case Nil
      then have "starts_with (c # cs) w" using ps by (auto simp: starts_with_iff)
      then show ?thesis by simp
    next
      case (Cons a p')
      then have "cs = p' @ w @ s" using ps by simp
      then have "str_contains w cs" using Cons.IH by blast
      then show ?thesis by simp
    qed
  qed
qed

lemma str_contains_suffix_part: "str_contains (a @ b) t \<Longrightarrow> str_contains b t"
proof -
  assume "str_contains (a @ b) t"
  then obtain p s where "t = p @ (a @ b) @ s" by (auto simp: str_contains_iff)
  then have "t = (p @ a) @ b @ s" by simp
  then show ?thesis unfolding str_contains_iff by blast
qed

lemma collect_violations_filter:
  "collect_violations ws t acc = acc @ map violation (filter (\<lambda>w. str_contains w t) ws)"
  by (induction ws arbitrary: acc) auto

lemma violation_terms_code:
  "violation_terms (check_legal_content text) =
     filter (\<lambda>w. str_contains w (py_lower text)) PROHIBITED_WORDS"
proof -
  have "concat (map (\<lambda>v. case py_get v ''term'' PyNone of PyStr t \<Rightarrow> [t] | _ \<Rightarrow> [])
          (map violation ws)) = ws" for ws
    by (induction ws) (simp_all add: violation_def py_get_def)
  then show ?thesis
    by (simp add: violation_terms_def check_legal_content_def py_get_def collect_violations_filter Let_def)
qed

lemma lower_char_not_upper_F: "lower_char c \<noteq> CHR ''F''"
proof
  assume a: "lower_char c = CHR ''F''"
  let ?n = "of_char c :: nat"
  show False
  proof (cases "(65 \<le> ?n \<and> ?n \<le> 90) \<or> (192 \<le> ?n \<and> ?n \<le> 222 \<and> ?n \<noteq> 215)")
    case True
    have "lower_char c = char_of (?n + 32)" unfolding lower_char_def Let_def by (rule if_P) (rule True)
    then have "char_of (?n + 32) = CHR ''F''" using a by simp
    then have "(of_char (char_of (?n + 32)) :: nat) = of_char CHR ''F''" by simp
    then have "(?n + 32) mod 256 = 70" by simp
    with True show False by auto
  next
    case False
    have "lower_char c = c" unfolding lower_char_def Let_def by (rule if_not_P) (rule False)
    then have "c = CHR ''F''" using a by simp
    then have "?n = 70" by simp
    with False show False by simp
  qed
qed

lemma fda_term_never_matches: "\<not> str_contains ''FDA approved'' (py_lower text)"
proof
  assume "str_contains ''FDA approved'' (py_lower text)"
  then obtain p s where "py_lower text = p @ ''FDA approved'' @ s"
    by (auto simp: str_contains_iff)
  then have "CHR ''F'' \<in> set (py_lower text)" by simp
  then obtain x where "lower_char x = CHR ''F''" by (auto simp: py_lower_def)
  then show False by (simp add: lower_char_not_upper_F)
qed


lemma prohibited_split: "PROHIBITED_WORDS = butlast PROHIBITED_WORDS @ [''FDA approved'']"
  by (simp add: PROHIBITED_WORDS_def)

lemma lower_other_terms: "\<forall>w \<in> set (butlast PROHIBITED_WORDS). py_lower w = w"
  by code_simp

lemma lower_fda: "py_lower ''FDA approved'' = ''fda '' @ ''approved''"
  by code_simp

lemma approved_listed: "''approved'' \<in> set (butlast PROHIBITED_WORDS)"
  by (simp add: PROHIBITED_WORDS_def)

lemma compliant_agrees_with_spec:
  "(violation_terms (check_legal_content text) = []) \<longleftrightarrow> (spec_matched_terms text = [])"
proof -
  let ?t = "py_lower text"
  let ?Q = "\<lambda>w. str_contains w ?t"
  let ?P = "\<lambda>w. str_contains (py_lower w) ?t"
  let ?init = "butlast PROHIBITED_WORDS"
  have same: "filter ?P ?init = filter ?Q ?init"
    by (rule filter_cong) (simp_all add: lower_other_terms)
  have code: "filter ?Q PROHIBITED_WORDS = filter ?Q ?init"
    by (subst prohibited_split) (simp add: fda_term_never_matches)
  have spec: "filter ?P PROHIBITED_WORDS = filter ?P ?init @ (if ?P ''FDA approved'' then [''FDA approved''] else [])"
    by (subst prohibited_split) simp
  have imp: "filter ?Q ?init = [] \<Longrightarrow> \<not> ?P ''FDA approved''"
  proof
    assume e: "filter ?Q ?init = []" and p: "?P ''FDA approved''"
    from p have "str_contains ''approved'' ?t"
      unfolding lower_fda by (rule str_contains_suffix_part)
    moreover from e have "\<not> str_contains ''approved'' ?t"
      using approved_listed by (auto simp: filter_empty_conv)
    ultimately show False by simp
  qed
  show ?thesis
    unfolding violation_terms_code spec_matched_terms_def code spec same
    using imp by auto
qed

lemma compliant_flag:
  "py_get (check_legal_content text) ''compliant'' PyNone =
     PyBool (violation_terms (check_legal_content text) = [])"
  unfolding violation_terms_code
  by (simp add: check_legal_content_def py_get_def Let_def collect_violations_filter)

lemma fda_term_never_reported:
  "''FDA approved'' \<notin> set (violation_terms (check_legal_content text))"
  by (simp add: violation_terms_code fda_term_never_matches)

lemma violations_tagged:
  "py_get (check_legal_content text) ''violations'' PyNone =
     PyList (map violation (filter (\<lambda>w. str_contains w (py_lower text)) PROHIBITED_WORDS))"
  by (simp add: check_legal_content_def py_get_def Let_def collect_violations_filter)

text \<open>
  C3.  The message is lowered and the terms are not, so the term \<open>FDA approved\<close>,
  the only one with capitals, is never found: on the message \<open>FDA approved\<close> the
  check reports the term \<open>approved\<close> alone, where a case-insensitive match against
  every term reports \<open>FDA approved\<close> as well.
\<close>

theorem C3_fda_term_not_reported:
  "violation_terms (check_legal_content ''FDA approved'') = [''approved''] \<and>
   spec_matched_terms ''FDA approved'' = [''approved'', ''FDA approved'']"
  by code_simp

section \<open>Properties of the text contrast check\<close>

lemma linearize_nonneg: "0 \<le> c \<Longrightarrow> 0 \<le> linearize c"
  by (simp add: linearize_def)

lemma luminance_nonneg: "is_rgb color \<Longrightarrow> 0 \<le> luminance color"
  by (cases color) (auto simp: is_rgb_def luminance_def Let_def intro!: add_nonneg_nonneg mult_nonneg_nonneg linearize_nonneg)

lemma lum_white: "luminance (255, 255, 255) = 1"
  by (simp add: luminance_def linearize_def)

lemma lum_black: "luminance (0, 0, 0) = 0"
  by (simp add: luminance_def linearize_def)

lemma contrast_sym: "contrast_ratio a b = contrast_ratio b a"
  by (auto simp: contrast_ratio_def Let_def)

lemma contrast_ge1:
  assumes "is_rgb a" "is_rgb b"
  shows "\<exists>r. contrast_ratio a b = Inr r \<and> 1 \<le> r"
proof -
  have "0 \<le> luminance a" "0 \<le> luminance b" using assms by (simp_all add: luminance_nonneg)
  then show ?thesis
    by (auto simp: contrast_ratio_def Let_def)
qed


lemma luminance_spec: "luminance color = spec_luminance color"
  by (cases color)
     (simp add: luminance_def spec_luminance_def linearize_def spec_linearize_def Let_def)

text \<open>
  \<open>x powr 2.4\<close> is the number whose fifth power is the twelfth power of \<open>x\<close>, which
  gives rational bounds for it.
\<close>

lemma powr_12_5:
  fixes x :: real
  assumes "0 < x"
  shows "(x powr (24 / 10)) ^ 5 = x ^ 12"
proof -
  have "(x powr (24 / 10)) ^ 5 = (x powr (24 / 10)) powr (real 5)"
    by (rule powr_realpow [symmetric]) (use assms in simp)
  also have "\<dots> = x powr (24 / 10 * real 5)" by (rule powr_powr)
  also have "24 / 10 * real 5 = real 12" by simp
  also have "x powr (real 12) = x ^ 12" using assms by (rule powr_realpow)
  finally show ?thesis .
qed

lemma powr_12_5_bounds:
  fixes x lo hi :: real
  assumes "0 < x" and "0 \<le> hi" and "lo ^ 5 < x ^ 12" and "x ^ 12 < hi ^ 5"
  shows "lo < x powr (24 / 10)" and "x powr (24 / 10) < hi"
proof -
  note e = powr_12_5 [OF assms(1)]
  have p: "0 \<le> x powr (24 / 10)" by simp
  have "lo ^ 5 < (x powr (24 / 10)) ^ 5" unfolding e by (rule assms(3))
  then show "lo < x powr (24 / 10)" using p by (rule power_less_imp_less_base)
  have "(x powr (24 / 10)) ^ 5 < hi ^ 5" unfolding e by (rule assms(4))
  then show "x powr (24 / 10) < hi" using assms(2) by (rule power_less_imp_less_base)
qed

lemma lum_grey: "luminance (c, c, c) = linearize (real_of_int c / 255)"
proof -
  have "luminance (c, c, c) =
        0.2126 * linearize (real_of_int c / 255) + 0.7152 * linearize (real_of_int c / 255)
          + 0.0722 * linearize (real_of_int c / 255)"
    by (simp add: luminance_def Let_def)
  also have "\<dots> = (0.2126 + 0.7152 + 0.0722) * linearize (real_of_int c / 255)"
    by (simp only: distrib_right)
  also have "\<dots> = linearize (real_of_int c / 255)" by simp
  finally show ?thesis .
qed

lemma lum_dark_grey: "luminance (10, 10, 10) = 50 / 16473"
  unfolding lum_grey by (simp add: linearize_def)

lemma lum_mid_grey: "0.2158 < luminance (128, 128, 128)" "luminance (128, 128, 128) < 0.2159"
proof -
  have l: "linearize (real_of_int 128 / 255) = (5681 / 10761) powr (24 / 10)"
    by (simp add: linearize_def)
  have b: "(0.2158::real) ^ 5 < (5681 / 10761) ^ 12" "((5681 / 10761)::real) ^ 12 < 0.2159 ^ 5"
    by (simp_all add: power_divide)
  have x: "(0::real) < 5681 / 10761" "(0::real) \<le> 0.2159" by simp_all
  show "0.2158 < luminance (128, 128, 128)"
    unfolding lum_grey l using x b by (rule powr_12_5_bounds)
  show "luminance (128, 128, 128) < 0.2159"
    unfolding lum_grey l using x b by (rule powr_12_5_bounds)
qed

lemma contrast_ratio_value:
  assumes "is_rgb a" "is_rgb b"
  shows "contrast_ratio a b =
    Inr ((max (luminance a) (luminance b) + 0.05) / (min (luminance a) (luminance b) + 0.05))"
proof -
  have "0 \<le> luminance a" "0 \<le> luminance b" using assms by (simp_all add: luminance_nonneg)
  then show ?thesis
    by (auto simp: contrast_ratio_def Let_def max_def min_def)
qed

lemma check_text_contrast_fields:
  "contrast_ratio a b = Inr r \<Longrightarrow>
   \<exists>d. check_text_contrast a b = Inr d \<and>
       py_get d ''ratio'' PyNone = PyFloat (py_round2 r) \<and>
       py_get d ''passes_aa'' PyNone = PyBool (4.5 \<le> r) \<and>
       py_get d ''passes_aaa'' PyNone = PyBool (7.0 \<le> r)"
  by (simp add: check_text_contrast_def py_get_def)

text \<open>
  C8.  The contrast ratio is symmetric in its two colours, and so is the whole result;
  white on black (and black on white) gives 21.  The luminance of the program is the
  relative luminance of the specification, with the sRGB curve on each channel: for
  instance \<open>10 / 255 / 12.92\<close> for the grey (10, 10, 10), on the linear part of the
  curve, and a number between 0.2158 and 0.2159 for the grey (128, 128, 128), on the
  power part.  For two RGB colours (channels from 0 to 255) the check returns, the
  ratio is (lighter + 0.05) / (darker + 0.05), it is at least 1, the result passes AA
  exactly when the ratio is at least 4.5 and AAA exactly when it is at least 7.0.
\<close>

theorem C8_contrast:
  "contrast_ratio a b = contrast_ratio b a \<and>
   check_text_contrast a b = check_text_contrast b a \<and>
   contrast_ratio (255, 255, 255) (0, 0, 0) = Inr 21 \<and>
   contrast_ratio (0, 0, 0) (255, 255, 255) = Inr 21 \<and>
   luminance a = spec_luminance a \<and>
   luminance (10, 10, 10) = 50 / 16473 \<and>
   0.2158 < luminance (128, 128, 128) \<and> luminance (128, 128, 128) < 0.2159 \<and>
   (is_rgb a \<and> is_rgb b \<longrightarrow>
      (\<exists>r d. contrast_ratio a b = Inr r \<and>
         r = (max (luminance a) (luminance b) + 0.05) / (min (luminance a) (luminance b) + 0.05) \<and>
         1 \<le> r \<and>
         check_text_contrast a b = Inr d \<and>
         py_get d ''ratio'' PyNone = PyFloat (py_round2 r) \<and>
         py_get d ''passes_aa'' PyNone = PyBool (4.5 \<le> r) \<and>
         py_get d ''passes_aaa'' PyNone = PyBool (7.0 \<le> r)))"
proof -
  have sym: "contrast_ratio a b = contrast_ratio b a" by (rule contrast_sym)
  then have sym2: "check_text_contrast a b = check_text_contrast b a"
    by (simp add: check_text_contrast_def)
  have wb: "contrast_ratio (255, 255, 255) (0, 0, 0) = Inr 21"
    by (simp add: contrast_ratio_def lum_white lum_black)
  have bw: "contrast_ratio (0, 0, 0) (255, 255, 255) = Inr 21"
    by (simp add: contrast_ratio_def lum_white lum_black)
  have main: "\<exists>r d. contrast_ratio a b = Inr r \<and>
         r = (max (luminance a) (luminance b) + 0.05) / (min (luminance a) (luminance b) + 0.05) \<and>
         1 \<le> r \<and>
         check_text_contrast a b = Inr d \<and>
         py_get d ''ratio'' PyNone = PyFloat (py_round2 r) \<and>
         py_get d ''passes_aa'' PyNone = PyBool (4.5 \<le> r) \<and>
         py_get d ''passes_aaa'' PyNone = PyBool (7.0 \<le> r)" if ab: "is_rgb a" "is_rgb b"
  proof -
    let ?r = "(max (luminance a) (luminance b) + 0.05) / (min (luminance a) (luminance b) + 0.05)"
    have v: "contrast_ratio a b = Inr ?r" using ab by (rule contrast_ratio_value)
    obtain r' where "contrast_ratio a b = Inr r'" "1 \<le> r'" using contrast_ge1 [OF ab] by blast
    with v have ge: "1 \<le> ?r" by simp
    from check_text_contrast_fields [OF v] obtain d where
      "check_text_contrast a b = Inr d"
      "py_get d ''ratio'' PyNone = PyFloat (py_round2 ?r)"
      "py_get d ''passes_aa'' PyNone = PyBool (4.5 \<le> ?r)"
      "py_get d ''passes_aaa'' PyNone = PyBool (7.0 \<le> ?r)" by blast
    with v ge show ?thesis by blast
  qed
  from sym sym2 wb bw luminance_spec lum_dark_grey lum_mid_grey main show ?thesis by blast
qed

lemma py_round2_mid_grey:
  assumes "5.316 < r" and "r < 5.318"
  shows "py_round2 r = 5.32"
proof -
  have f: "\<lfloor>r * 100\<rfloor> = 531" using assms by (intro floor_unique) simp_all
  have d: "1 / 2 < r * 100 - 531" using assms by simp
  show ?thesis unfolding py_round2_def Let_def f using d by simp
qed

theorem C8_contrast_witness:
  "is_rgb (128, 128, 128) \<and> is_rgb (0, 0, 0) \<and>
   (\<exists>r d. contrast_ratio (128, 128, 128) (0, 0, 0) = Inr r \<and> 5.316 < r \<and> r < 5.318 \<and>
        check_text_contrast (128, 128, 128) (0, 0, 0) = Inr d \<and>
        py_get d ''ratio'' PyNone = PyFloat 5.32 \<and>
        py_get d ''passes_aa'' PyNone = PyBool True \<and>
        py_get d ''passes_aaa'' PyNone = PyBool False)"
proof -
  have a: "is_rgb (128, 128, 128)" and b: "is_rgb (0, 0, 0)" by (simp_all add: is_rgb_def)
  note inst = C8_contrast [of "(128, 128, 128)" "(0, 0, 0)"]
  from inst have lo: "0.2158 < luminance (128, 128, 128)"
    and hi: "luminance (128, 128, 128) < 0.2159" by blast+
  from inst a b
  obtain r d where
      c: "contrast_ratio (128, 128, 128) (0, 0, 0) = Inr r" and
      v: "r = (max (luminance (128, 128, 128)) (luminance (0, 0, 0)) + 0.05) /
           (min (luminance (128, 128, 128)) (luminance (0, 0, 0)) + 0.05)" and
      k: "check_text_contrast (128, 128, 128) (0, 0, 0) = Inr d" and
      f1: "py_get d ''ratio'' PyNone = PyFloat (py_round2 r)" and
      f2: "py_get d ''passes_aa'' PyNone = PyBool (4.5 \<le> r)" and
      f3: "py_get d ''passes_aaa'' PyNone = PyBool (7.0 \<le> r)" by blast
  have r: "r = (luminance (128, 128, 128) + 0.05) / 0.05"
    unfolding v lum_black using lo by (simp add: max_def min_def)
  have r1: "5.316 < r" and r2: "r < 5.318" unfolding r using lo hi by simp_all
  have g1: "py_get d ''ratio'' PyNone = PyFloat 5.32"
    using f1 unfolding py_round2_mid_grey [OF r1 r2] .
  have g2: "py_get d ''passes_aa'' PyNone = PyBool True" using f2 r1 by simp
  have g3: "py_get d ''passes_aaa'' PyNone = PyBool False" using f3 r2 by simp
  from a b c r1 r2 k g1 g2 g3 show ?thesis by blast
qed

section \<open>Properties of the full compliance check\<close>

lemma py_and_bools: "py_and (PyBool a) (py_and (PyBool b) (PyBool c)) = PyBool (a \<and> b \<and> c)"
  by (simp add: py_and_def py_truthy_def)

lemma legal_compliant_subscript:
  "subscript (check_legal_content msg) ''compliant'' =
     Inr (PyBool (violation_terms (check_legal_content msg) = []))"
  unfolding violation_terms_code
  by (simp add: check_legal_content_def subscript_def Let_def collect_violations_filter)

lemma run_full_report:
  "run_full_compliance_check P w cfg image_path msg =
     (case mtime w image_path of
        None \<Rightarrow> Inl (FileNotFoundError image_path)
      | Some t \<Rightarrow>
          Inr (PyDict [(''image'', PyStr image_path),
                       (''timestamp'', PyFloat t),
                       (''checks'', PyDict [(''legal_content'', check_legal_content msg),
                          (''logo_presence'', check_logo_presence P w cfg image_path None),
                          (''brand_colors'', validate_brand_colors P w cfg image_path None)]),
                       (''overall_compliant'',
                          PyBool (violation_terms (check_legal_content msg) = [] \<and>
                            py_get (check_logo_presence P w cfg image_path None) ''detected'' (PyBool True) \<noteq> PyBool False \<and>
                            py_get (validate_brand_colors P w cfg image_path None) ''compliant'' (PyBool True) \<noteq> PyBool False))]))"
  unfolding run_full_compliance_check_def Let_def legal_compliant_subscript is_not_False_def
  by (simp add: py_and_bools split: option.splits)

lemma logo_detected_key:
  "\<exists>v. py_get (check_logo_presence P w cfg image_path lp) ''detected'' dflt = v \<and>
       py_get (check_logo_presence P w cfg image_path lp) ''detected'' PyNone = v \<and>
       (v = PyNone \<or> v = PyBool True \<or> v = PyBool False)"
  by (auto simp: check_logo_presence_def logo_presence_try_def py_get_def Let_def
      split: option.splits sum.splits prod.splits if_splits)

lemma colors_compliant_key:
  "\<exists>v. py_get (validate_brand_colors P w cfg image_path bc) ''compliant'' dflt = v \<and>
       py_get (validate_brand_colors P w cfg image_path bc) ''compliant'' PyNone = v \<and>
       (v = PyNone \<or> v = PyBool True \<or> v = PyBool False)"
  by (auto simp: validate_brand_colors_def brand_colors_try_def py_get_def Let_def
      split: option.splits sum.splits prod.splits if_splits)


text \<open>
  C1.  Whenever \<open>run_full_compliance_check\<close> returns a report, the report holds the
  results of the three sub-checks, and its \<open>overall_compliant\<close> is the conjunction of:
  the legal check is compliant, the logo verdict is not \<open>False\<close>, the brand-colour
  verdict is not \<open>False\<close>.  With both image verdicts \<open>None\<close> the overall result is the
  legal verdict, and an overall \<open>False\<close> needs a sub-check that returned \<open>False\<close>.
\<close>

theorem C1_overall_compliant:
  fixes P w cfg image_path msg
  defines "legal_result \<equiv> check_legal_content msg"
    and "logo_result \<equiv> check_logo_presence P w cfg image_path None"
    and "colors_result \<equiv> validate_brand_colors P w cfg image_path None"
  assumes run: "run_full_compliance_check P w cfg image_path msg = Inr report"
  shows "py_get report ''checks'' PyNone =
           PyDict [(''legal_content'', legal_result), (''logo_presence'', logo_result), (''brand_colors'', colors_result)] \<and>
         py_get report ''overall_compliant'' PyNone =
           PyBool (py_get legal_result ''compliant'' PyNone = PyBool True \<and>
                   py_get logo_result ''detected'' PyNone \<noteq> PyBool False \<and>
                   py_get colors_result ''compliant'' PyNone \<noteq> PyBool False) \<and>
         (py_get logo_result ''detected'' PyNone = PyNone \<and> py_get colors_result ''compliant'' PyNone = PyNone \<longrightarrow>
            py_get report ''overall_compliant'' PyNone = py_get legal_result ''compliant'' PyNone) \<and>
         (py_get report ''overall_compliant'' PyNone = PyBool False \<longrightarrow>
            py_get legal_result ''compliant'' PyNone = PyBool False \<or>
            py_get logo_result ''detected'' PyNone = PyBool False \<or>
            py_get colors_result ''compliant'' PyNone = PyBool False)"
proof -
  obtain t where t: "mtime w image_path = Some t"
    using run by (cases "mtime w image_path") (simp_all add: run_full_report)
  obtain lv where lv: "py_get logo_result ''detected'' (PyBool True) = lv" "py_get logo_result ''detected'' PyNone = lv"
    using logo_detected_key [of P w cfg image_path None] unfolding logo_result_def by blast
  obtain cv where cv: "py_get colors_result ''compliant'' (PyBool True) = cv" "py_get colors_result ''compliant'' PyNone = cv"
    using colors_compliant_key [of P w cfg image_path None] unfolding colors_result_def by blast
  have lg: "py_get legal_result ''compliant'' PyNone = PyBool (violation_terms legal_result = [])"
    unfolding legal_result_def by (rule compliant_flag)
  have rep: "report = PyDict [(''image'', PyStr image_path),
                       (''timestamp'', PyFloat t),
                       (''checks'', PyDict [(''legal_content'', legal_result),
                          (''logo_presence'', logo_result), (''brand_colors'', colors_result)]),
                       (''overall_compliant'',
                          PyBool (violation_terms legal_result = [] \<and> lv \<noteq> PyBool False \<and> cv \<noteq> PyBool False))]"
    using run t lv(1) cv(1) unfolding run_full_report legal_result_def logo_result_def colors_result_def by simp
  have c: "py_get report ''checks'' PyNone =
      PyDict [(''legal_content'', legal_result), (''logo_presence'', logo_result), (''brand_colors'', colors_result)]"
    unfolding rep by (simp add: py_get_def)
  have o: "py_get report ''overall_compliant'' PyNone =
      PyBool (violation_terms legal_result = [] \<and> lv \<noteq> PyBool False \<and> cv \<noteq> PyBool False)"
    unfolding rep by (simp add: py_get_def)
  show ?thesis
    unfolding c o lg lv(2) cv(2) by auto
qed


lemma ex1: "\<exists>r. run_full_compliance_check example_platform example_world no_brand ''hero.png''
           ''Get fit this spring'' = Inr r"
  by (simp add: run_full_report example_world_def)

lemma ex_logo: "py_get (check_logo_presence example_platform example_world no_brand ''hero.png'' None) ''detected'' PyNone = PyNone"
  by (simp add: check_logo_presence_def no_brand_def py_get_def)

lemma ex_col: "py_get (validate_brand_colors example_platform example_world no_brand ''hero.png'' None) ''compliant'' PyNone = PyNone"
  by (simp add: validate_brand_colors_def no_brand_def py_get_def truthy_strings_def)

lemma ex_col_red: "py_get (validate_brand_colors example_platform example_world red_brand ''hero.png'' None) ''compliant'' PyNone = PyBool False"
  by (simp add: validate_brand_colors_def red_brand_def py_get_def truthy_strings_def brand_colors_try_def
     image_open_def example_world_def alloc_def image_convert_def deref_def Let_def example_platform_def)

lemma ex_legal1: "py_get (check_legal_content ''Get fit this spring'') ''compliant'' PyNone = PyBool True"
  by code_simp
lemma ex_legal2: "py_get (check_legal_content ''Best price guaranteed'') ''compliant'' PyNone = PyBool False"
  by code_simp


lemma example_runs:
  "\<exists>r. run_full_compliance_check example_platform example_world cfg ''hero.png'' msg = Inr r"
  by (simp add: run_full_report example_world_def)

lemma ex_logo_red: "py_get (check_logo_presence example_platform example_world red_brand ''hero.png'' None) ''detected'' PyNone = PyNone"
  by (simp add: check_logo_presence_def red_brand_def py_get_def)

theorem C1_overall_compliant_witness:
  "(\<exists>r. run_full_compliance_check example_platform example_world no_brand ''hero.png''
          ''Get fit this spring'' = Inr r \<and>
        py_get r ''overall_compliant'' PyNone = PyBool True) \<and>
   (\<exists>r. run_full_compliance_check example_platform example_world no_brand ''hero.png''
          ''Best price guaranteed'' = Inr r \<and>
        py_get r ''overall_compliant'' PyNone = PyBool False) \<and>
   (\<exists>r. run_full_compliance_check example_platform example_world red_brand ''hero.png''
          ''Get fit this spring'' = Inr r \<and>
        py_get r ''overall_compliant'' PyNone = PyBool False)"
proof -
  obtain r1 where r1: "run_full_compliance_check example_platform example_world no_brand
      ''hero.png'' ''Get fit this spring'' = Inr r1" using example_runs by blast
  obtain r2 where r2: "run_full_compliance_check example_platform example_world no_brand
      ''hero.png'' ''Best price guaranteed'' = Inr r2" using example_runs by blast
  obtain r3 where r3: "run_full_compliance_check example_platform example_world red_brand
      ''hero.png'' ''Get fit this spring'' = Inr r3" using example_runs by blast
  have o1: "py_get r1 ''overall_compliant'' PyNone = PyBool True"
    using C1_overall_compliant [OF r1, THEN conjunct2, THEN conjunct1]
    unfolding ex_legal1 ex_logo ex_col by simp
  have o2: "py_get r2 ''overall_compliant'' PyNone = PyBool False"
    using C1_overall_compliant [OF r2, THEN conjunct2, THEN conjunct1]
    unfolding ex_legal2 ex_logo ex_col by simp
  have o3: "py_get r3 ''overall_compliant'' PyNone = PyBool False"
    using C1_overall_compliant [OF r3, THEN conjunct2, THEN conjunct1]
    unfolding ex_legal1 ex_logo_red ex_col_red by simp
  from r1 r2 r3 o1 o2 o3 show ?thesis by blast
qed

section \<open>Properties of the text overlay\<close>

lemma split_loop_words:
  "\<forall>c \<in> set word. \<not> is_space c \<Longrightarrow> \<forall>w \<in> set (split_loop s word). word_ok w"
proof (induction s arbitrary: word)
  case Nil
  then show ?case by (simp add: word_ok_def)
next
  case (Cons c cs)
  show ?case
  proof (cases "is_space c")
    case True
    have "\<forall>w \<in> set (split_loop cs []). word_ok w" by (rule Cons.IH) simp
    with True Cons.prems show ?thesis by (simp add: word_ok_def)
  next
    case False
    have "\<forall>w \<in> set (split_loop cs (word @ [c])). word_ok w"
      by (rule Cons.IH) (use False Cons.prems in auto)
    with False show ?thesis by simp
  qed
qed

lemma py_split_words: "\<forall>w \<in> set (py_split s). word_ok w"
  unfolding py_split_def by (rule split_loop_words) simp

lemma split_loop_no_space:
  "\<forall>c \<in> set w. \<not> is_space c \<Longrightarrow> split_loop (w @ rest) word = split_loop rest (word @ w)"
  by (induction w arbitrary: word) auto

lemma is_space_blank: "is_space CHR '' ''"
  by (simp add: is_space_def)

lemma split_join_words:
  "\<forall>w \<in> set ws. word_ok w \<Longrightarrow> py_split (py_join '' '' ws) = ws"
proof (induction ws)
  case Nil
  then show ?case by (simp add: py_split_def)
next
  case (Cons x ys)
  then have x: "x \<noteq> []" "\<forall>c \<in> set x. \<not> is_space c" by (simp_all add: word_ok_def)
  show ?case
  proof (cases ys)
    case Nil
    have "split_loop (x @ []) [] = split_loop [] ([] @ x)" using x(2) by (rule split_loop_no_space)
    with x(1) Nil show ?thesis by (simp add: py_split_def)
  next
    case (Cons y zs)
    have ih: "py_split (py_join '' '' (y # zs)) = y # zs" using Cons.IH Cons.prems Cons by simp
    have "split_loop (x @ '' '' @ py_join '' '' (y # zs)) [] =
          split_loop ('' '' @ py_join '' '' (y # zs)) ([] @ x)"
      using x(2) by (rule split_loop_no_space)
    also have "\<dots> = x # split_loop (py_join '' '' (y # zs)) []"
      using x(1) by (simp add: is_space_blank)
    finally show ?thesis using ih Cons by (simp add: py_split_def)
  qed
qed

lemma split_single_word: "word_ok w \<Longrightarrow> py_split w = [w]"
  using split_join_words [of "[w]"] by simp

lemma wrap_loop_words:
  assumes "wrap_loop f m ws lines cur = (lines', cur')"
    and "\<forall>w \<in> set ws. word_ok w" and "\<forall>w \<in> set cur. word_ok w"
  shows "concat (map py_split lines') @ cur' = concat (map py_split lines) @ cur @ ws \<and>
         (\<forall>w \<in> set cur'. word_ok w)"
  using assms
proof (induction ws arbitrary: lines cur)
  case Nil
  then show ?case by simp
next
  case (Cons word ws)
  have wok: "word_ok word" and wsok: "\<forall>w \<in> set ws. word_ok w" using Cons.prems(2) by simp_all
  let ?test = "f (py_join '' '' (cur @ [word]))"
  show ?case
  proof (cases "?test \<le> m")
    case True
    then have "wrap_loop f m ws lines (cur @ [word]) = (lines', cur')"
      using Cons.prems(1) by (simp add: Let_def)
    from Cons.IH [OF this wsok] wok Cons.prems(3) show ?thesis by simp
  next
    case False
    show ?thesis
    proof (cases "cur = []")
      case True
      then have "wrap_loop f m ws (lines @ [word]) cur = (lines', cur')"
        using Cons.prems(1) False by (simp add: Let_def)
      from Cons.IH [OF this wsok Cons.prems(3)] True wok show ?thesis
        by (simp add: split_single_word)
    next
      case ne: False
      then have "wrap_loop f m ws (lines @ [py_join '' '' cur]) [word] = (lines', cur')"
        using Cons.prems(1) False by (simp add: Let_def)
      from Cons.IH [OF this wsok] wok Cons.prems(3) show ?thesis
        by (simp add: split_join_words)
    qed
  qed
qed

lemma wrap_text_words: "concat (map py_split (wrap_text f m text)) = py_split text"
proof -
  obtain lines cur where wl: "wrap_loop f m (py_split text) [] [] = (lines, cur)"
    by (cases "wrap_loop f m (py_split text) [] []")
  from wrap_loop_words [OF wl py_split_words]
  have a: "concat (map py_split lines) @ cur = py_split text" and b: "\<forall>w \<in> set cur. word_ok w"
    by simp_all
  show ?thesis
  proof (cases "cur = []")
    case True
    then show ?thesis using a wl by (simp add: wrap_text_def)
  next
    case False
    then show ?thesis using a b wl by (simp add: wrap_text_def split_join_words)
  qed
qed

lemma wrap_loop_widths:
  assumes "wrap_loop f m ws lines cur = (lines', cur')"
    and "\<forall>l \<in> set lines. f l \<le> m \<or> l \<in> W"
    and "set ws \<subseteq> W"
    and "cur = [] \<or> f (py_join '' '' cur) \<le> m \<or> (\<exists>w \<in> W. cur = [w])"
  shows "(\<forall>l \<in> set lines'. f l \<le> m \<or> l \<in> W) \<and>
         (cur' = [] \<or> f (py_join '' '' cur') \<le> m \<or> (\<exists>w \<in> W. cur' = [w]))"
  using assms
proof (induction ws arbitrary: lines cur)
  case Nil
  then show ?case by simp
next
  case (Cons word ws)
  have wW: "word \<in> W" and wsW: "set ws \<subseteq> W" using Cons.prems(3) by simp_all
  let ?test = "f (py_join '' '' (cur @ [word]))"
  show ?case
  proof (cases "?test \<le> m")
    case True
    then have step: "wrap_loop f m ws lines (cur @ [word]) = (lines', cur')"
      using Cons.prems(1) by (simp add: Let_def)
    show ?thesis
      by (rule Cons.IH [OF step Cons.prems(2) wsW]) (use True in simp)
  next
    case False
    show ?thesis
    proof (cases "cur = []")
      case True
      then have step: "wrap_loop f m ws (lines @ [word]) cur = (lines', cur')"
        using Cons.prems(1) False by (simp add: Let_def)
      have l: "\<forall>l \<in> set (lines @ [word]). f l \<le> m \<or> l \<in> W"
        using Cons.prems(2) wW by simp
      show ?thesis
        by (rule Cons.IH [OF step l wsW]) (use True in simp)
    next
      case ne: False
      then have step: "wrap_loop f m ws (lines @ [py_join '' '' cur]) [word] = (lines', cur')"
        using Cons.prems(1) False by (simp add: Let_def)
      have "f (py_join '' '' cur) \<le> m \<or> py_join '' '' cur \<in> W"
        using Cons.prems(4) ne by auto
      then have l: "\<forall>l \<in> set (lines @ [py_join '' '' cur]). f l \<le> m \<or> l \<in> W"
        using Cons.prems(2) by simp
      show ?thesis
        by (rule Cons.IH [OF step l wsW]) (use wW in simp)
    qed
  qed
qed

lemma wrap_text_widths:
  "\<forall>line \<in> set (wrap_text f m text). f line \<le> m \<or> line \<in> set (py_split text)"
proof -
  obtain lines cur where wl: "wrap_loop f m (py_split text) [] [] = (lines, cur)"
    by (cases "wrap_loop f m (py_split text) [] []")
  have "(\<forall>l \<in> set lines. f l \<le> m \<or> l \<in> set (py_split text)) \<and>
        (cur = [] \<or> f (py_join '' '' cur) \<le> m \<or> (\<exists>w \<in> set (py_split text). cur = [w]))"
    by (rule wrap_loop_widths [OF wl]) simp_all
  then show ?thesis using wl by (auto simp: wrap_text_def)
qed

lemma text_layout_height: "text_layout P (W, H) text position = Inr tb \<Longrightarrow> H \<noteq> 0"
  unfolding text_layout_def Let_def prod.case by (cases "H = 0") simp_all

lemma text_layout_shape:
  assumes "text_layout P (W, H) text position = Inr tb"
  shows "\<exists>x0 y0. tb =
    (let max_text_width = py_int (real_of_int W * 0.85);
         font_size = py_int (real_of_int (min W H) * 0.08);
         lines = wrap_text (text_width P font_size) max_text_width text;
         line_height = py_int (real_of_int font_size * 1.3);
         bg_width = widest (text_width P font_size) lines 0 + 30 * 2;
         bg_height = int (length lines) * line_height + 25 * 2
     in \<lparr>tb_lines = lines, tb_font_size = font_size,
          tb_max_text_width = max_text_width, tb_line_height = line_height,
          tb_x = max 20 (min x0 (W - bg_width - 20)),
          tb_y = max 20 (min y0 (H - bg_height - 20)),
          tb_bg_width = bg_width, tb_bg_height = bg_height\<rparr>)"
proof -
  have H: "H \<noteq> 0" using assms by (rule text_layout_height)
  show ?thesis
    using assms unfolding text_layout_def Let_def prod.case if_not_P [OF H]
    apply (simp only: split: prod.splits)
    apply (simp only: sum.inject)
    apply hypsubst
    apply (rule exI)+
    apply (rule refl)
    done
qed

lemma text_layout_fields:
  assumes "text_layout P (W, H) text position = Inr tb"
  shows "tb_lines tb = wrap_text (text_width P (tb_font_size tb)) (tb_max_text_width tb) text"
    and "tb_max_text_width tb = py_int (real_of_int W * 0.85)"
    and "tb_font_size tb = py_int (real_of_int (min W H) * 0.08)"
    and "tb_line_height tb = py_int (real_of_int (tb_font_size tb) * 1.3)"
    and "tb_bg_width tb = widest (text_width P (tb_font_size tb)) (tb_lines tb) 0 + 60"
    and "tb_bg_height tb = int (length (tb_lines tb)) * tb_line_height tb + 50"
    and "\<exists>x0. tb_x tb = max 20 (min x0 (W - tb_bg_width tb - 20))"
    and "\<exists>y0. tb_y tb = max 20 (min y0 (H - tb_bg_height tb - 20))"
proof -
  from text_layout_shape [OF assms] obtain x0 y0 where tb: "tb =
    (let max_text_width = py_int (real_of_int W * 0.85);
         font_size = py_int (real_of_int (min W H) * 0.08);
         lines = wrap_text (text_width P font_size) max_text_width text;
         line_height = py_int (real_of_int font_size * 1.3);
         bg_width = widest (text_width P font_size) lines 0 + 30 * 2;
         bg_height = int (length lines) * line_height + 25 * 2
     in \<lparr>tb_lines = lines, tb_font_size = font_size,
          tb_max_text_width = max_text_width, tb_line_height = line_height,
          tb_x = max 20 (min x0 (W - bg_width - 20)),
          tb_y = max 20 (min y0 (H - bg_height - 20)),
          tb_bg_width = bg_width, tb_bg_height = bg_height\<rparr>)" by blast
  show "tb_lines tb = wrap_text (text_width P (tb_font_size tb)) (tb_max_text_width tb) text"
    unfolding tb Let_def by simp
  show "tb_max_text_width tb = py_int (real_of_int W * 0.85)" unfolding tb Let_def by simp
  show "tb_font_size tb = py_int (real_of_int (min W H) * 0.08)" unfolding tb Let_def by simp
  show "tb_line_height tb = py_int (real_of_int (tb_font_size tb) * 1.3)"
    unfolding tb Let_def by simp
  show "tb_bg_width tb = widest (text_width P (tb_font_size tb)) (tb_lines tb) 0 + 60"
    unfolding tb Let_def by simp
  show "tb_bg_height tb = int (length (tb_lines tb)) * tb_line_height tb + 50"
    unfolding tb Let_def by simp
  have "tb_x tb = max 20 (min x0 (W - tb_bg_width tb - 20))" unfolding tb Let_def by simp
  then show "\<exists>x0. tb_x tb = max 20 (min x0 (W - tb_bg_width tb - 20))" by blast
  have "tb_y tb = max 20 (min y0 (H - tb_bg_height tb - 20))" unfolding tb Let_def by simp
  then show "\<exists>y0. tb_y tb = max 20 (min y0 (H - tb_bg_height tb - 20))" by blast
qed

lemma text_layout_total:
  "H \<noteq> 0 \<Longrightarrow> \<exists>tb. text_layout P (W, H) text position = Inr tb"
proof -
  assume H: "H \<noteq> 0"
  show ?thesis
    unfolding text_layout_def Let_def prod.case
    unfolding if_not_P [OF H] split_beta
    by (rule exI) (rule refl)
qed

lemma py_int_le: "0 \<le> x \<Longrightarrow> real_of_int (py_int x) \<le> x"
  by (simp add: py_int_def)

lemma py_int_less: "0 \<le> x \<Longrightarrow> py_int x < z \<Longrightarrow> x < real_of_int z"
  by (simp add: py_int_def floor_less_iff)

lemma py_split_word_single: "w \<in> set (py_split text) \<Longrightarrow> py_split w = [w]"
  using py_split_words [of "text"] by (auto intro: split_single_word)

lemma draw_result:
  assumes "draw w (length h) op = Inr w'" and "heap w = h @ [x]"
  shows "heap w' = h @ [x\<lparr>raster := Drawn op (raster x)\<rparr>]"
  using assms by (auto simp: draw_def store_def deref_def Let_def split: if_splits)

lemma draw_all_result:
  assumes "draw_all w (length h) ops = Inr w'" and "heap w = h @ [x]"
  shows "\<exists>y. heap w' = h @ [y] \<and> drawn_ops (raster y) = drawn_ops (raster x) @ ops"
  using assms
proof (induction ops arbitrary: w x)
  case Nil
  then show ?case by simp
next
  case (Cons op ops)
  from Cons.prems(1) obtain w1 where d: "draw w (length h) op = Inr w1"
    and rest: "draw_all w1 (length h) ops = Inr w'"
    by (auto split: sum.splits)
  have h1: "heap w1 = h @ [x\<lparr>raster := Drawn op (raster x)\<rparr>]"
    using draw_result [OF d Cons.prems(2)] .
  from Cons.IH [OF rest h1] show ?case by simp
qed

lemma add_text_overlay_layout:
  assumes "add_text_overlay P self w a text position = Inr (r, w')"
  shows "\<exists>tb. text_layout P (width (deref w a), height (deref w a)) text position = Inr tb \<and>
           drawn_ops (raster (deref w' r)) =
             drawn_ops (raster (deref w a)) @
             Rectangle [tb_x tb, tb_y tb, tb_x tb + tb_bg_width tb, tb_y tb + tb_bg_height tb]
               (panel_color P self) #
             text_ops P tb (fill_color P self) (tb_lines tb) (tb_y tb + 25)"
proof -
  let ?img = "deref w a"
  let ?w1 = "w\<lparr>heap := heap w @ [?img]\<rparr>"
  have cp: "image_copy w a = (length (heap w), ?w1)" and h1: "heap ?w1 = heap w @ [?img]"
    by (simp_all add: image_copy_def alloc_def)
  note run = assms [unfolded add_text_overlay_def cp prod.case Let_def]
  have ok: "draw_mode_ok ?img" using run by (cases "draw_mode_ok ?img") simp_all
  have nm: "\<not> \<not> draw_mode_ok ?img" using ok by simp
  note run1 = run [unfolded if_not_P [OF nm]]
  obtain tb where tb: "text_layout P (width ?img, height ?img) text position = Inr tb"
    using run1 by (cases "text_layout P (width ?img, height ?img) text position") simp_all
  note run2 = run1 [unfolded tb sum.case]
  let ?rect = "Rectangle [tb_x tb, tb_y tb, tb_x tb + tb_bg_width tb, tb_y tb + tb_bg_height tb]
                 (panel_color P self)"
  obtain w2 where dr: "draw ?w1 (length (heap w)) ?rect = Inr w2"
    using run2 by (cases "draw ?w1 (length (heap w)) ?rect") simp_all
  note run3 = run2 [unfolded dr sum.case]
  let ?ops = "text_ops P tb (fill_color P self) (tb_lines tb) (tb_y tb + 25)"
  obtain w3 where da3: "draw_all w2 (length (heap w)) ?ops = Inr w3"
    using run3 by (cases "draw_all w2 (length (heap w)) ?ops") simp_all
  have r: "r = length (heap w)" and w3: "w3 = w'" using run3 unfolding da3 by simp_all
  note da = da3 [unfolded w3]
  note h2 = draw_result [OF dr h1]
  from draw_all_result [OF da h2] obtain y where
    h3: "heap w' = heap w @ [y]" and
    ops: "drawn_ops (raster y) =
            drawn_ops (raster (?img\<lparr>raster := Drawn (Rectangle [tb_x tb, tb_y tb,
               tb_x tb + tb_bg_width tb, tb_y tb + tb_bg_height tb] (panel_color P self))
               (raster ?img)\<rparr>)) @
            text_ops P tb (fill_color P self) (tb_lines tb) (tb_y tb + 25)" by blast
  have "deref w' r = y" unfolding r deref_def h3 by simp
  with tb ops show ?thesis by simp
qed

text \<open>
  C6.  In the layout of the text overlay on an image of width \<open>W\<close>, every line is at
  most 85% of \<open>W\<close> wide, or it is one single word of the text that is itself wider
  than 85% of \<open>W\<close>; so no line of several words is wider than the bound.  No word is
  dropped: every word of the text is a word of some line.
\<close>

theorem C6_wrapped_line_widths:
  assumes "text_layout P (W, H) text position = Inr tb" and "0 \<le> W"
  shows "(\<forall>line \<in> set (tb_lines tb).
            real_of_int (text_width P (tb_font_size tb) line) \<le> 0.85 * real_of_int W \<or>
            (line \<in> set (py_split text) \<and> py_split line = [line] \<and>
             0.85 * real_of_int W < real_of_int (text_width P (tb_font_size tb) line))) \<and>
         (\<forall>word \<in> set (py_split text). \<exists>line \<in> set (tb_lines tb). word \<in> set (py_split line))"
proof -
  let ?f = "text_width P (tb_font_size tb)"
  let ?m = "tb_max_text_width tb"
  let ?x = "real_of_int W * 0.85"
  note fields = text_layout_fields [OF assms(1)]
  have lines: "tb_lines tb = wrap_text ?f ?m text" and m: "?m = py_int ?x"
    using fields(1,2) by simp_all
  have x0: "0 \<le> ?x" using assms(2) by simp
  have "real_of_int (?f line) \<le> 0.85 * real_of_int W \<or>
        (line \<in> set (py_split text) \<and> py_split line = [line] \<and>
         0.85 * real_of_int W < real_of_int (?f line))"
    if "line \<in> set (tb_lines tb)" for line
  proof (cases "?f line \<le> ?m")
    case True
    then have "real_of_int (?f line) \<le> real_of_int (py_int ?x)" unfolding m by simp
    also have "\<dots> \<le> ?x" using x0 by (rule py_int_le)
    finally show ?thesis by simp
  next
    case False
    then have w: "line \<in> set (py_split text)"
      using wrap_text_widths [of ?f ?m "text"] that unfolding lines by blast
    from False have "py_int ?x < ?f line" unfolding m by simp
    then have "?x < real_of_int (?f line)" using x0 by (rule py_int_less [rotated])
    with w py_split_word_single [OF w] show ?thesis by simp
  qed
  moreover have "\<exists>line \<in> set (tb_lines tb). word \<in> set (py_split line)"
    if "word \<in> set (py_split text)" for word
  proof -
    have "word \<in> set (concat (map py_split (tb_lines tb)))"
      unfolding lines wrap_text_words using that .
    then show ?thesis by auto
  qed
  ultimately show ?thesis by blast
qed

lemma clamp_low: "20 \<le> max (20::int) (min x0 hi)"
  by simp

lemma clamp_high: "(max (20::int) (min x0 (W - bw - 20)) + bw \<le> W - 20) = (bw \<le> W - 40)"
  by auto

text \<open>
  The background panel is the rectangle of the layout, the first thing that
  \<open>add_text_overlay\<close> draws.  The clamp keeps its top-left corner at \<open>x \<ge> 20\<close> and
  \<open>y \<ge> 20\<close>, and keeps its right and lower edges 20 pixels inside the image exactly
  when the panel is at most the image width minus 40 wide and at most the image height
  minus 40 high: a larger panel leaves the image.
\<close>

lemma panel_margins:
  assumes "text_layout P (W, H) text position = Inr tb"
  shows "20 \<le> tb_x tb \<and> 20 \<le> tb_y tb \<and>
         (tb_x tb + tb_bg_width tb \<le> W - 20) = (tb_bg_width tb \<le> W - 40) \<and>
         (tb_y tb + tb_bg_height tb \<le> H - 20) = (tb_bg_height tb \<le> H - 40) \<and>
         (add_text_overlay P self w a text position = Inr (r, w') \<and>
          width (deref w a) = W \<and> height (deref w a) = H \<longrightarrow>
            drawn_ops (raster (deref w' r)) =
              drawn_ops (raster (deref w a)) @
              Rectangle [tb_x tb, tb_y tb, tb_x tb + tb_bg_width tb, tb_y tb + tb_bg_height tb]
                (panel_color P self) #
              text_ops P tb (fill_color P self) (tb_lines tb) (tb_y tb + 25))"
proof -
  note fields = text_layout_fields [OF assms]
  obtain x0 where x: "tb_x tb = max 20 (min x0 (W - tb_bg_width tb - 20))"
    using fields(7) by blast
  obtain y0 where y: "tb_y tb = max 20 (min y0 (H - tb_bg_height tb - 20))"
    using fields(8) by blast
  have margins: "20 \<le> tb_x tb \<and> 20 \<le> tb_y tb \<and>
         (tb_x tb + tb_bg_width tb \<le> W - 20) = (tb_bg_width tb \<le> W - 40) \<and>
         (tb_y tb + tb_bg_height tb \<le> H - 20) = (tb_bg_height tb \<le> H - 40)"
    unfolding x y by (intro conjI clamp_low clamp_high)
  have drawn: "drawn_ops (raster (deref w' r)) =
              drawn_ops (raster (deref w a)) @
              Rectangle [tb_x tb, tb_y tb, tb_x tb + tb_bg_width tb, tb_y tb + tb_bg_height tb]
                (panel_color P self) #
              text_ops P tb (fill_color P self) (tb_lines tb) (tb_y tb + 25)"
    if run: "add_text_overlay P self w a text position = Inr (r, w')"
      and sz: "width (deref w a) = W" "height (deref w a) = H"
  proof -
    from add_text_overlay_layout [OF run] obtain tb' where
      l: "text_layout P (W, H) text position = Inr tb'" and
      d: "drawn_ops (raster (deref w' r)) =
              drawn_ops (raster (deref w a)) @
              Rectangle [tb_x tb', tb_y tb', tb_x tb' + tb_bg_width tb', tb_y tb' + tb_bg_height tb']
                (panel_color P self) #
              text_ops P tb' (fill_color P self) (tb_lines tb') (tb_y tb' + 25)"
      unfolding sz by blast
    from l assms have "tb' = tb" by simp
    with d show ?thesis by simp
  qed
  from margins drawn show ?thesis by blast
qed

text \<open>
  C10.  The word-wrap keeps the words of the text: the words of the produced lines, line
  after line, are the whitespace-split words of the text, in the same order, none
  dropped and none twice.  This holds for the wrap with any font and any bound, and so
  for the lines of the layout of the text overlay.
\<close>

theorem C10_wrap_preserves_words:
  "concat (map py_split (wrap_text measure_text max_text_width text)) = py_split text \<and>
   (text_layout P image_size text position = Inr tb \<longrightarrow>
      concat (map py_split (tb_lines tb)) = py_split text)"
proof -
  have "concat (map py_split (tb_lines tb)) = py_split text"
    if "text_layout P image_size text position = Inr tb"
  proof -
    obtain W H where sz: "image_size = (W, H)" by (cases image_size)
    note fields = text_layout_fields [OF that [unfolded sz]]
    show ?thesis
      using fields(1) by (simp add: wrap_text_words)
  qed
  then show ?thesis by (simp add: wrap_text_words)
qed

lemma long_word_layout:
  "text_layout example_platform (1080, 1080) long_word_text ''bottom'' = Inr long_word_block"
  by code_simp

lemma long_word_widths:
  "text_width example_platform 86 ''Supercalifragilisticexpialidocious'' = 1734"
  "text_width example_platform 86 ''Get fit this'' = 612"
  by code_simp+

lemma long_word_split:
  "py_split long_word_text =
     [''Get'', ''fit'', ''this'', ''spring,'', ''with'', ''the'',
      ''Supercalifragilisticexpialidocious'', ''offer'']"
  by code_simp

theorem C6_wrapped_line_widths_witness:
  "text_layout example_platform (1080, 1080) long_word_text ''bottom'' = Inr long_word_block \<and>
   (0::int) \<le> 1080 \<and>
   real_of_int (text_width example_platform 86 ''Get fit this'') \<le> 0.85 * 1080 \<and>
   ''Supercalifragilisticexpialidocious'' \<in> set (py_split long_word_text) \<and>
   py_split ''Supercalifragilisticexpialidocious'' = [''Supercalifragilisticexpialidocious''] \<and>
   0.85 * 1080 < real_of_int (text_width example_platform 86 ''Supercalifragilisticexpialidocious'')"
proof -
  have le: "(0::int) \<le> 1080" by simp
  have mem: "''Supercalifragilisticexpialidocious'' \<in> set (tb_lines long_word_block)"
    by (simp add: long_word_block_def)
  have fs: "tb_font_size long_word_block = 86" by (simp add: long_word_block_def)
  have not_fit: "\<not> real_of_int (text_width example_platform 86 ''Supercalifragilisticexpialidocious'')
                    \<le> 0.85 * real_of_int 1080"
    unfolding long_word_widths by simp
  from C6_wrapped_line_widths [OF long_word_layout le, THEN conjunct1, THEN bspec, OF mem]
  have "''Supercalifragilisticexpialidocious'' \<in> set (py_split long_word_text) \<and>
        py_split ''Supercalifragilisticexpialidocious'' = [''Supercalifragilisticexpialidocious''] \<and>
        0.85 * real_of_int 1080 <
          real_of_int (text_width example_platform 86 ''Supercalifragilisticexpialidocious'')"
    unfolding fs using not_fit by blast
  moreover have "real_of_int (text_width example_platform 86 ''Get fit this'') \<le> 0.85 * 1080"
    unfolding long_word_widths by simp
  ultimately show ?thesis using long_word_layout by simp
qed

theorem C10_wrap_preserves_words_witness:
  "text_layout example_platform (1080, 1080) long_word_text ''bottom'' = Inr long_word_block \<and>
   concat (map py_split (tb_lines long_word_block)) =
     [''Get'', ''fit'', ''this'', ''spring,'', ''with'', ''the'',
      ''Supercalifragilisticexpialidocious'', ''offer'']"
proof -
  from C10_wrap_preserves_words [THEN conjunct2, THEN mp, OF long_word_layout]
  have "concat (map py_split (tb_lines long_word_block)) = py_split long_word_text" .
  then show ?thesis using long_word_layout unfolding long_word_split by simp
qed

section \<open>Properties of the creative composer\<close>

lemma alloc_facts:
  assumes "alloc w img = (a, w')"
  shows "a = length (heap w)" and "deref w' a = img"
    and "heap w' = heap w @ [img]"
    and "disk w' = disk w" and "path_exists w' = path_exists w" and "mtime w' = mtime w"
    and "mkdir_ok w' = mkdir_ok w" and "writable w' = writable w"
  using assms by (auto simp: alloc_def deref_def)

lemma alloc_frame:
  assumes "alloc w img = (a, w')" and "i < length (heap w)"
  shows "deref w' i = deref w i"
  using assms by (auto simp: alloc_def deref_def nth_append)

lemma image_copy_facts:
  assumes "image_copy w a = (c, w')"
  shows "c = length (heap w)" and "deref w' c = deref w a" and "heap w' = heap w @ [deref w a]"
  using assms by (auto simp: image_copy_def alloc_def deref_def)

lemma image_resize_ok:
  assumes "0 < fst sz" and "0 < snd sz"
  shows "\<exists>r w'. image_resize w a sz = Inr (r, w') \<and>
           deref w' r = (if (width (deref w a), height (deref w a)) = sz then deref w a
                         else resized_image (deref w a) sz) \<and>
           (\<exists>img. heap w' = heap w @ [img]) \<and> writable w' = writable w"
  using assms
  by (auto simp: image_resize_def image_copy_def alloc_def deref_def Let_def)

lemma resized_size: "width (resized_image img sz) = fst sz \<and> height (resized_image img sz) = snd sz"
  by (simp add: resized_image_def)

lemma image_crop_ok:
  assumes "x0 \<le> x1" and "y0 \<le> y1"
  shows "\<exists>r w'. image_crop w a (x0, y0, x1, y1) = Inr (r, w') \<and>
           deref w' r = cropped_image (deref w a) (x0, y0, x1, y1) \<and>
           (\<exists>img. heap w' = heap w @ [img]) \<and> writable w' = writable w"
  using assms
  by (auto simp: image_crop_def alloc_def deref_def Let_def)

lemma cropped_size:
  "width (cropped_image img (x0, y0, x1, y1)) = x1 - x0 \<and>
   height (cropped_image img (x0, y0, x1, y1)) = y1 - y0"
  by (simp add: cropped_image_def)

subsection \<open>Rounding to a double\<close>

text \<open>
  Some doubles: one tenth, one third, and a tie between two neighbours, which goes to
  the even significand.
\<close>

lemma round_double_examples:
  "round_double (1 / 10) = 3602879701896397 / 36028797018963968"
  "round_double (1 / 3) = 6004799503160661 / 18014398509481984"
  "round_double (2 ^ 53 + 1) = 2 ^ 53"
  "round_double (2 ^ 53 + 3) = 2 ^ 53 + 4"
  "round_double (- 3 / 2) = - 3 / 2"
  by code_simp+

text \<open>One rounding changes a positive number by at most the fraction \<open>2 ^ - 53\<close> of it.\<close>

lemma bit_length_bounds:
  "0 < n \<Longrightarrow> 1 \<le> bit_length n \<and> 2 ^ nat (bit_length n - 1) \<le> n \<and> n < 2 ^ nat (bit_length n)"
proof (induction n rule: bit_length.induct)
  case (1 n)
  show ?case
  proof (cases "n div 2 = 0")
    case True
    with "1.prems" have n1: "n = 1" by presburger
    have "bit_length 1 = 1" by (simp add: bit_length.simps [of 1] bit_length.simps [of 0])
    then show ?thesis unfolding n1 by simp
  next
    case False
    with "1.prems" have pos: "0 < n div 2" by presburger
    from "1.prems" have nle: "\<not> n \<le> 0" by simp
    note ih = "1.IH" [OF nle pos]
    define k where "k = bit_length (n div 2)"
    have bl: "bit_length n = 1 + k" using "1.prems" unfolding k_def by (simp add: bit_length.simps [of n])
    from ih have k1: "1 \<le> k" and lo: "2 ^ nat (k - 1) \<le> n div 2" and hi: "n div 2 < 2 ^ nat k"
      unfolding k_def by simp_all
    have e1: "nat (1 + k - 1) = Suc (nat (k - 1))" using k1 by simp
    have e2: "nat (1 + k) = Suc (nat k)" using k1 by simp
    have a: "(2::int) ^ nat (1 + k - 1) \<le> n" unfolding e1 using lo by simp
    have b: "n < 2 ^ nat (1 + k)" unfolding e2 using hi by simp
    from k1 a b show ?thesis unfolding bl by simp
  qed
qed

lemma round_half_even_close: "\<bar>real_of_int (round_half_even y) - y\<bar> \<le> 1 / 2"
  unfolding round_half_even_def Let_def
  by (auto simp: abs_le_iff)

lemma scaled_round:
  assumes s: "0 < s" and big: "2 ^ 52 \<le> a * s"
  shows "\<bar>real_of_int (round_half_even (a * s)) / s - a\<bar> \<le> a / 2 ^ 53"
proof -
  define D where "D = \<bar>real_of_int (round_half_even (a * s)) - a * s\<bar>"
  have "D \<le> 1 / 2" unfolding D_def by (rule round_half_even_close)
  also have "\<dots> \<le> a * s / 2 ^ 53" using big by simp
  finally have "D \<le> a * s / 2 ^ 53" .
  then have "D / s \<le> (a * s / 2 ^ 53) / s" using s by (intro divide_right_mono) simp_all
  also have "(a * s / 2 ^ 53) / s = a / 2 ^ 53" using s by simp
  finally have le: "D / s \<le> a / 2 ^ 53" .
  have "real_of_int (round_half_even (a * s)) / s - a =
        (real_of_int (round_half_even (a * s)) - a * s) / s"
    using s by (simp add: diff_divide_distrib)
  then have "\<bar>real_of_int (round_half_even (a * s)) / s - a\<bar> = D / s"
    unfolding D_def using s by (simp only: abs_divide abs_of_pos)
  then show ?thesis using le by (simp only:)
qed

lemma round_double_pos_error:
  assumes "0 < x"
  shows "\<bar>round_double x - x\<bar> \<le> x / 2 ^ 53"
proof (cases "1 \<le> x")
  case True
  define b where "b = bit_length \<lfloor>x\<rfloor>"
  have fl: "0 < \<lfloor>x\<rfloor>" using True by simp
  from bit_length_bounds [OF fl] have b1: "1 \<le> b" and lo: "2 ^ nat (b - 1) \<le> \<lfloor>x\<rfloor>"
    unfolding b_def by simp_all
  have lox: "(2::real) ^ nat (b - 1) \<le> x"
  proof -
    have "real_of_int (2 ^ nat (b - 1)) \<le> real_of_int \<lfloor>x\<rfloor>" using lo by (simp only: of_int_le_iff)
    then show ?thesis by (simp add: le_floor_iff)
  qed
  show ?thesis
  proof (cases "0 \<le> b - 53")
    case ge: True
    define n where "n = nat (b - 53)"
    have rd: "round_double x = real_of_int (round_half_even (x / 2 ^ n)) * 2 ^ n"
      using assms True ge unfolding round_double_def Let_def by (simp add: b_def n_def)
    have nb: "nat (b - 1) = n + 52" using ge unfolding n_def by simp
    have big: "2 ^ 52 \<le> x * (1 / 2 ^ n)" using lox unfolding nb by (simp add: power_add field_simps)
    from scaled_round [of "1 / 2 ^ n" x, OF _ big] show ?thesis unfolding rd by simp
  next
    case lt: False
    define n where "n = nat (- (b - 53))"
    have rd: "round_double x = real_of_int (round_half_even (x * 2 ^ n)) / 2 ^ n"
      using assms True lt unfolding round_double_def Let_def by (simp add: b_def n_def)
    have nb: "nat (b - 1) + n = 52" using lt b1 unfolding n_def by simp
    have "(2::real) ^ 52 = 2 ^ nat (b - 1) * 2 ^ n" unfolding nb [symmetric] by (simp add: power_add)
    also have "\<dots> \<le> x * 2 ^ n" using lox by simp
    finally have big: "2 ^ 52 \<le> x * 2 ^ n" .
    from scaled_round [of "2 ^ n" x, OF _ big] show ?thesis unfolding rd by simp
  qed
next
  case False
  define b where "b = bit_length \<lfloor>1 / x\<rfloor>"
  have fl: "0 < \<lfloor>1 / x\<rfloor>" using False assms by (simp add: le_floor_iff)
  from bit_length_bounds [OF fl] have b1: "1 \<le> b" and hi: "\<lfloor>1 / x\<rfloor> < 2 ^ nat b"
    unfolding b_def by simp_all
  have hix: "1 / x < 2 ^ nat b"
  proof -
    have "\<lfloor>1 / x\<rfloor> < \<lfloor>(2::real) ^ nat b\<rfloor>" using hi by simp
    then show ?thesis by (rule floor_less_cancel)
  qed
  define n where "n = nat (- (- b - 52))"
  have neg: "\<not> 0 \<le> - b - 52" using b1 by simp
  have rd: "round_double x = real_of_int (round_half_even (x * 2 ^ n)) / 2 ^ n"
    using assms False neg unfolding round_double_def Let_def by (simp add: b_def n_def)
  have nb: "n = nat b + 52" using b1 unfolding n_def by simp
  have "1 < x * 2 ^ nat b" using hix assms by (simp add: field_simps)
  then have "(2::real) ^ 52 \<le> (x * 2 ^ nat b) * 2 ^ 52" by simp
  then have big: "2 ^ 52 \<le> x * 2 ^ n" unfolding nb by (simp add: power_add mult.assoc)
  from scaled_round [of "2 ^ n" x, OF _ big] show ?thesis unfolding rd by simp
qed

lemma unit_roundoff_facts:
  "0 \<le> unit_roundoff" "unit_roundoff \<le> 1"
  "(1 + unit_roundoff) * (1 + unit_roundoff) * (1 + unit_roundoff) \<le> 1 + 4 * unit_roundoff"
  "1 - 4 * unit_roundoff \<le> (1 - unit_roundoff) * (1 - unit_roundoff) * (1 - unit_roundoff)"
  unfolding unit_roundoff_def by simp_all

lemma round_double_bounds:
  assumes "0 < x"
  shows "x * (1 - unit_roundoff) \<le> round_double x"
    and "round_double x \<le> x * (1 + unit_roundoff)"
    and "0 < round_double x"
proof -
  have e: "\<bar>round_double x - x\<bar> \<le> x * unit_roundoff"
    using round_double_pos_error [OF assms] unfolding unit_roundoff_def by simp
  have lo: "x - x * unit_roundoff \<le> round_double x" using e by linarith
  have hi: "round_double x \<le> x + x * unit_roundoff" using e by linarith
  show "x * (1 - unit_roundoff) \<le> round_double x" using lo by (simp only: right_diff_distrib mult_1_right)
  show "round_double x \<le> x * (1 + unit_roundoff)" using hi by (simp only: distrib_left mult_1_right)
  have "x * unit_roundoff < x"
  proof -
    have "unit_roundoff < 1" unfolding unit_roundoff_def by simp
    then have "x * unit_roundoff < x * 1" using assms by (simp only: mult_less_cancel_left_pos)
    then show ?thesis by simp
  qed
  with lo show "0 < round_double x" by linarith
qed

text \<open>
  \<open>w * (t / h)\<close> for three positive integers, as the two scalings compute it, takes
  three roundings.  Where \<open>w * t\<close> is below \<open>2 ^ 51\<close> the truncated product is the
  exact quotient \<open>w * t / h\<close> rounded down, or one less where that quotient is whole.
\<close>

lemma scale_error:
  assumes "0 < w" "0 < h" "0 < t"
  defines "X \<equiv> real_of_int w * (real_of_int t / real_of_int h)"
    and "f \<equiv> int_times_float w (int_truediv t h)"
  shows "X * (1 - 4 * unit_roundoff) \<le> f" and "f \<le> X * (1 + 4 * unit_roundoff)" and "0 < f"
proof -
  define u where "u = unit_roundoff"
  define a where "a = real_of_int w"
  define b where "b = real_of_int t / real_of_int h"
  define A where "A = round_double a"
  define B where "B = round_double b"
  have a0: "0 < a" and b0: "0 < b" using assms by (simp_all add: a_def b_def)
  note uf = unit_roundoff_facts [folded u_def]
  have u1: "0 \<le> 1 + u" "0 \<le> 1 - u" using uf(1,2) by simp_all
  note ba = round_double_bounds [OF a0, folded A_def u_def]
  note bb = round_double_bounds [OF b0, folded B_def u_def]
  have ab0: "0 < A * B" using ba(3) bb(3) by simp
  have f: "f = round_double (A * B)"
    unfolding f_def int_times_float_def int_truediv_def A_def B_def a_def b_def ..
  note bf = round_double_bounds [OF ab0, folded f u_def]
  show "0 < f" by (rule bf(3))
  have X: "X = a * b" unfolding X_def a_def b_def ..
  have X0: "0 \<le> X" unfolding X using a0 b0 by simp
  have al: "0 \<le> a * (1 - u)" and bl: "0 \<le> b * (1 - u)" using a0 b0 u1 by simp_all
  have A0: "0 \<le> A" and B0: "0 \<le> B" using ba(3) bb(3) by simp_all
  have up1: "A * B \<le> (a * (1 + u)) * (b * (1 + u))"
    using ba(2) bb(2) A0 B0 by (rule mult_mono') 
  have lo1: "(a * (1 - u)) * (b * (1 - u)) \<le> A * B"
    using ba(1) bb(1) al bl by (rule mult_mono')
  have "f \<le> (A * B) * (1 + u)" by (rule bf(2))
  also have "\<dots> \<le> ((a * (1 + u)) * (b * (1 + u))) * (1 + u)"
    using up1 u1(1) by (rule mult_right_mono)
  also have "\<dots> = X * ((1 + u) * (1 + u) * (1 + u))" unfolding X by (simp only: ac_simps)
  also have "\<dots> \<le> X * (1 + 4 * u)" using uf(3) X0 by (rule mult_left_mono)
  finally show "f \<le> X * (1 + 4 * unit_roundoff)" unfolding u_def .
  have "X * (1 - 4 * u) \<le> X * ((1 - u) * (1 - u) * (1 - u))" using uf(4) X0 by (rule mult_left_mono)
  also have "\<dots> = ((a * (1 - u)) * (b * (1 - u))) * (1 - u)" unfolding X by (simp only: ac_simps)
  also have "\<dots> \<le> (A * B) * (1 - u)" using lo1 u1(2) by (rule mult_right_mono)
  also have "\<dots> \<le> f" by (rule bf(1))
  finally show "X * (1 - 4 * unit_roundoff) \<le> f" unfolding u_def .
qed

lemma scale_trunc:
  assumes "0 < w" "0 < h" "0 < t" and small: "w * t < 2 ^ 51"
  defines "s \<equiv> py_int (int_times_float w (int_truediv t h))"
  shows "h * s \<le> w * t" and "w * t \<le> h * (s + 1)"
proof -
  define X where "X = real_of_int w * (real_of_int t / real_of_int h)"
  define f where "f = int_times_float w (int_truediv t h)"
  define R where "R = real_of_int (w * t)"
  define H where "H = real_of_int h"
  define S where "S = real_of_int s"
  note e = scale_error [OF assms(1-3), folded X_def f_def]
  have h0: "0 < H" unfolding H_def using assms by simp
  have hX: "H * X = R" unfolding X_def R_def H_def using assms by simp
  have "real_of_int (w * t) < real_of_int (2 ^ 51)" using small by (simp only: of_int_less_iff)
  then have sm: "R < 2 ^ 51" unfolding R_def by simp
  have R0: "0 \<le> R" unfolding R_def using assms by simp
  have Ru: "R * (4 * unit_roundoff) < 1" using sm R0 unfolding unit_roundoff_def by simp
  have s: "s = \<lfloor>f\<rfloor>" unfolding s_def f_def [symmetric] py_int_def using e(3) by simp
  have sf: "S \<le> f" "f < S + 1" unfolding s S_def by linarith+
  have hf1: "H * (X * (1 - 4 * unit_roundoff)) \<le> H * f"
    using e(1) h0 by (simp only: mult_le_cancel_left_pos)
  have hf2: "H * f \<le> H * (X * (1 + 4 * unit_roundoff))"
    using e(2) h0 by (simp only: mult_le_cancel_left_pos)
  have hs1: "H * S \<le> H * f" using sf(1) h0 by (simp only: mult_le_cancel_left_pos)
  have hs2: "H * f < H * (S + 1)" using sf(2) h0 by (simp only: mult_less_cancel_left_pos)
  have x1: "H * (X * (1 - 4 * unit_roundoff)) = R - R * (4 * unit_roundoff)"
    unfolding hX [symmetric] by (simp only: right_diff_distrib mult_1_right mult.assoc)
  have x2: "H * (X * (1 + 4 * unit_roundoff)) = R + R * (4 * unit_roundoff)"
    unfolding hX [symmetric] by (simp only: distrib_left mult_1_right mult.assoc)
  have "H * S < R + 1" using hs1 hf2 Ru unfolding x2 by linarith
  then have "real_of_int (h * s) < real_of_int (w * t + 1)" unfolding H_def S_def R_def by simp
  then have "h * s < w * t + 1" by (simp only: of_int_less_iff)
  then show "h * s \<le> w * t" by simp
  have "R - 1 < H * (S + 1)" using hs2 hf1 Ru unfolding x1 by linarith
  then have "real_of_int (w * t - 1) < real_of_int (h * (s + 1))" unfolding H_def S_def R_def by simp
  then have "w * t - 1 < h * (s + 1)" by (simp only: of_int_less_iff)
  then show "w * t \<le> h * (s + 1)" by simp
qed

text \<open>
  The scaled size covers the target size except, possibly, for one pixel of the side
  that is computed, and it has the aspect ratio of the source within one pixel of that
  side.
\<close>

lemma scale_cover:
  assumes pos: "0 < w" "0 < h" "0 < t" and T: "2 \<le> T" "T < 2 ^ 40"
    and near: "real_of_int T * (1 - unit_roundoff) \<le>
               real_of_int w * (real_of_int t / real_of_int h) * (1 + unit_roundoff)"
  shows "T - 1 \<le> py_int (int_times_float w (int_truediv t h))"
proof -
  define X where "X = real_of_int w * (real_of_int t / real_of_int h)"
  define f where "f = int_times_float w (int_truediv t h)"
  define R where "R = real_of_int T"
  note e = scale_error [OF pos, folded X_def f_def]
  have "real_of_int T < real_of_int (2 ^ 40)" using T(2) by (simp only: of_int_less_iff)
  then have R1: "R < 2 ^ 40" unfolding R_def by simp
  have R2: "2 \<le> R" unfolding R_def using T(1) by simp
  have n: "R * (1 - unit_roundoff) \<le> X * (1 + unit_roundoff)" using near unfolding X_def R_def .
  have "R - 1 < f" using e(1) n R1 R2 unfolding unit_roundoff_def by simp
  then have "real_of_int (T - 1) \<le> f" unfolding R_def by simp
  then have "T - 1 \<le> \<lfloor>f\<rfloor>" by (simp only: le_floor_iff)
  moreover have "py_int f = \<lfloor>f\<rfloor>" unfolding py_int_def using e(3) by simp
  ultimately show ?thesis unfolding f_def by simp
qed

lemma scaled_size_cases:
  assumes pos: "0 < w" "0 < h" and tw: "2 \<le> tw" "tw < 2 ^ 40" and th: "2 \<le> th" "th < 2 ^ 40"
  shows "\<exists>sw sh. scaled_size (w, h) (tw, th) = Inr (sw, sh) \<and>
           tw - 1 \<le> sw \<and> th - 1 \<le> sh \<and>
           (w * th < 2 ^ 51 \<and> h * tw < 2 ^ 51 \<longrightarrow>
              (sh = th \<and> h * sw \<le> w * th \<and> w * th \<le> h * (sw + 1)) \<or>
              (sw = tw \<and> w * sh \<le> h * tw \<and> h * tw \<le> w * (sh + 1)))"
proof (cases "int_truediv tw th < int_truediv w h")
  case True
  let ?sw = "py_int (int_times_float w (int_truediv th h))"
  have tpos: "0 < tw" "0 < th" using tw th by simp_all
  have eq: "scaled_size (w, h) (tw, th) = Inr (?sw, th)"
    using pos tpos True by (simp add: scaled_size_def Let_def)
  have a0: "0 < real_of_int tw / real_of_int th" and b0: "0 < real_of_int w / real_of_int h"
    using pos tpos by simp_all
  have "real_of_int tw / real_of_int th * (1 - unit_roundoff) \<le> int_truediv tw th"
    unfolding int_truediv_def using a0 by (rule round_double_bounds)
  also have "\<dots> \<le> int_truediv w h" using True by simp
  also have "\<dots> \<le> real_of_int w / real_of_int h * (1 + unit_roundoff)"
    unfolding int_truediv_def using b0 by (rule round_double_bounds)
  finally have "real_of_int tw / real_of_int th * (1 - unit_roundoff) * real_of_int th \<le>
        real_of_int w / real_of_int h * (1 + unit_roundoff) * real_of_int th"
    using tpos by (simp only: mult_le_cancel_right_pos of_int_0_less_iff)
  then have near: "real_of_int tw * (1 - unit_roundoff) \<le>
        real_of_int w * (real_of_int th / real_of_int h) * (1 + unit_roundoff)"
    using tpos by (simp add: ac_simps)
  have c: "tw - 1 \<le> ?sw" using pos tpos(2) tw near by (rule scale_cover)
  have b: "h * ?sw \<le> w * th \<and> w * th \<le> h * (?sw + 1)" if "w * th < 2 ^ 51"
    using scale_trunc [OF pos tpos(2) that] by simp
  from eq c b show ?thesis by auto
next
  case False
  let ?sh = "py_int (int_times_float h (int_truediv tw w))"
  have tpos: "0 < tw" "0 < th" using tw th by simp_all
  have eq: "scaled_size (w, h) (tw, th) = Inr (tw, ?sh)"
    using pos tpos False by (simp add: scaled_size_def Let_def)
  have a0: "0 < real_of_int tw / real_of_int th" and b0: "0 < real_of_int w / real_of_int h"
    using pos tpos by simp_all
  have "real_of_int w / real_of_int h * (1 - unit_roundoff) \<le> int_truediv w h"
    unfolding int_truediv_def using b0 by (rule round_double_bounds)
  also have "\<dots> \<le> int_truediv tw th" using False by simp
  also have "\<dots> \<le> real_of_int tw / real_of_int th * (1 + unit_roundoff)"
    unfolding int_truediv_def using a0 by (rule round_double_bounds)
  finally have le: "real_of_int w / real_of_int h * (1 - unit_roundoff) \<le>
        real_of_int tw / real_of_int th * (1 + unit_roundoff)" .
  define k where "k = real_of_int h / real_of_int w * real_of_int th"
  have k0: "0 < k" unfolding k_def using pos tpos by simp
  from le have "real_of_int w / real_of_int h * (1 - unit_roundoff) * k \<le>
        real_of_int tw / real_of_int th * (1 + unit_roundoff) * k"
    using k0 by (simp only: mult_le_cancel_right_pos)
  moreover have "real_of_int w / real_of_int h * (1 - unit_roundoff) * k =
        real_of_int th * (1 - unit_roundoff)" unfolding k_def using pos by simp
  moreover have "real_of_int tw / real_of_int th * (1 + unit_roundoff) * k =
        real_of_int h * (real_of_int tw / real_of_int w) * (1 + unit_roundoff)"
    unfolding k_def using tpos by simp
  ultimately have near: "real_of_int th * (1 - unit_roundoff) \<le>
        real_of_int h * (real_of_int tw / real_of_int w) * (1 + unit_roundoff)" by simp
  have c: "th - 1 \<le> ?sh" using pos(2,1) tpos(1) th near by (rule scale_cover)
  have b: "w * ?sh \<le> h * tw \<and> h * tw \<le> w * (?sh + 1)" if "h * tw < 2 ^ 51"
    using scale_trunc [OF pos(2,1) tpos(1) that] by simp
  from eq c b show ?thesis by auto
qed

text \<open>
  Two computations where the rounding takes a pixel away: a square image scaled for
  1x1, and a square logo of 281 pixels loaded by the constructor.
\<close>

lemma scaled_size_rounding:
  "scaled_size (535, 535) (1080, 1080) = Inr (1080, 1079)"
  "scaled_size (2000, 1000) (1080, 1080) = Inr (2160, 1080)"
  by code_simp+

lemma load_logo_rounding:
  "(let w = example_world
             \<lparr>disk := (\<lambda>p. Some \<lparr>width = 281, height = 281, mode = ''RGBA'', raster = Pixels 2\<rparr>)\<rparr>
    in case load_logo w logo_brand of
         (None, w') \<Rightarrow> False
       | (Some l, w') \<Rightarrow> width (deref w' l) = 149 \<and> height (deref w' l) = 149)"
  by code_simp

subsection \<open>The resized image\<close>

lemma resize_for_ratio_value:
  assumes sz: "get_output_size ratio = (tw, th)"
    and sc: "scaled_size (width (deref w a), height (deref w a)) (tw, th) = Inr (sw, sh)"
    and pos: "0 < sw" "0 < sh" "0 \<le> tw" "0 \<le> th"
  shows "\<exists>r w'. resize_for_ratio w a ratio = Inr (r, w') \<and>
           deref w' r =
             cropped_image
               (if (width (deref w a), height (deref w a)) = (sw, sh) then deref w a
                else resized_image (deref w a) (sw, sh))
               ((sw - tw) div 2, (sh - th) div 2, (sw - tw) div 2 + tw, (sh - th) div 2 + th) \<and>
           (\<exists>extra. heap w' = heap w @ extra) \<and> writable w' = writable w"
proof -
  from image_resize_ok [of "(sw, sh)" w a] pos(1,2)
  obtain r1 w1 img1 where
    r1: "image_resize w a (sw, sh) = Inr (r1, w1)" and
    v1: "deref w1 r1 = (if (width (deref w a), height (deref w a)) = (sw, sh) then deref w a
                         else resized_image (deref w a) (sw, sh))" and
    h1: "heap w1 = heap w @ [img1]" and wr1: "writable w1 = writable w" by auto
  let ?box = "((sw - tw) div 2, (sh - th) div 2, (sw - tw) div 2 + tw, (sh - th) div 2 + th)"
  from image_crop_ok [of "(sw - tw) div 2" "(sw - tw) div 2 + tw" "(sh - th) div 2" "(sh - th) div 2 + th" w1 r1]
    pos(3,4)
  obtain r2 w2 img2 where
    r2: "image_crop w1 r1 ?box = Inr (r2, w2)" and
    v2: "deref w2 r2 = cropped_image (deref w1 r1) ?box" and
    h2: "heap w2 = heap w1 @ [img2]" and wr2: "writable w2 = writable w1" by auto
  have "resize_for_ratio w a ratio = Inr (r2, w2)"
    unfolding resize_for_ratio_def sz prod.case Let_def sc sum.case r1 using r2 by simp
  moreover have "heap w2 = heap w @ [img1, img2]" using h1 h2 by simp
  ultimately show ?thesis using v2 v1 wr1 wr2 by auto
qed

lemma heap_extension_frame:
  "heap w' = heap w @ extra \<Longrightarrow> i < length (heap w) \<Longrightarrow> deref w' i = deref w i"
  by (simp add: deref_def nth_append)

lemma scaled_size_for_ratio:
  assumes "0 < iw" and "0 < ih" and sz: "get_output_size ratio = (tw, th)"
  shows "\<exists>sw sh. scaled_size (iw, ih) (tw, th) = Inr (sw, sh) \<and>
           0 < sw \<and> 0 < sh \<and> 0 \<le> tw \<and> 0 \<le> th \<and> tw - 1 \<le> sw \<and> th - 1 \<le> sh \<and>
           (iw < 2 ^ 31 \<and> ih < 2 ^ 31 \<longrightarrow>
              (sh = th \<and> ih * sw \<le> iw * sh \<and> iw * sh \<le> ih * (sw + 1)) \<or>
              (sw = tw \<and> iw * sh \<le> ih * sw \<and> ih * sw \<le> iw * (sh + 1)))"
proof -
  from output_size_range [of ratio]
  have r: "1080 \<le> tw" "tw \<le> 1920" "1080 \<le> th" "th \<le> 1920" unfolding sz by simp_all
  have t: "2 \<le> tw" "tw < 2 ^ 40" "2 \<le> th" "th < 2 ^ 40" using r by simp_all
  from scaled_size_cases [OF assms(1,2) t]
  obtain sw sh where
    sc: "scaled_size (iw, ih) (tw, th) = Inr (sw, sh)" and
    cover: "tw - 1 \<le> sw" "th - 1 \<le> sh" and
    ar: "iw * th < 2 ^ 51 \<and> ih * tw < 2 ^ 51 \<longrightarrow>
           (sh = th \<and> ih * sw \<le> iw * th \<and> iw * th \<le> ih * (sw + 1)) \<or>
           (sw = tw \<and> iw * sh \<le> ih * tw \<and> ih * tw \<le> iw * (sh + 1))" by blast
  have pos: "0 < sw" "0 < sh" "0 \<le> tw" "0 \<le> th" using cover r by simp_all
  have "(sh = th \<and> ih * sw \<le> iw * sh \<and> iw * sh \<le> ih * (sw + 1)) \<or>
        (sw = tw \<and> iw * sh \<le> ih * sw \<and> ih * sw \<le> iw * (sh + 1))"
    if small: "iw < 2 ^ 31" "ih < 2 ^ 31"
  proof -
    have "iw * th \<le> iw * 1920" using assms(1) r(4) by (intro mult_left_mono) simp_all
    moreover have "iw * 1920 < 2 ^ 51" using small(1) by simp
    ultimately have a: "iw * th < 2 ^ 51" by (rule le_less_trans)
    have "ih * tw \<le> ih * 1920" using assms(2) r(2) by (intro mult_left_mono) simp_all
    moreover have "ih * 1920 < 2 ^ 51" using small(2) by simp
    ultimately have b: "ih * tw < 2 ^ 51" by (rule le_less_trans)
    from ar a b show ?thesis by auto
  qed
  with sc pos cover show ?thesis by blast
qed

text \<open>
  C2.  For an image of positive width and height and any ratio name,
  \<open>resize_for_ratio\<close> returns a new image whose size is the output size of the policy
  for that name.  The returned image is the centre crop, of exactly that size, of the
  source scaled to some size \<open>sw\<close> by \<open>sh\<close> (or of a copy of the source, when that is
  its size already).  The scaled size covers the target size except, possibly, for one
  pixel.  For a source with sides below \<open>2 ^ 31\<close>, as every image of the library has,
  the scaled size keeps the aspect ratio of the source: one side is the target side and
  the other side is, within one pixel, that side times the ratio of the source sides.
  The result is determined by the input image and the ratio name alone.
\<close>

theorem C2_resize_for_ratio:
  assumes "0 < width (deref w a)" and "0 < height (deref w a)"
  shows "\<exists>r w' sw sh tw th.
           get_output_size ratio = (tw, th) \<and>
           resize_for_ratio w a ratio = Inr (r, w') \<and>
           width (deref w' r) = tw \<and> height (deref w' r) = th \<and>
           raster (deref w' r) =
             Cropped ((sw - tw) div 2) ((sh - th) div 2)
                     ((sw - tw) div 2 + tw) ((sh - th) div 2 + th)
               (if (width (deref w a), height (deref w a)) = (sw, sh) then raster (deref w a)
                else Resized sw sh (raster (deref w a))) \<and>
           tw - 1 \<le> sw \<and> th - 1 \<le> sh \<and>
           (width (deref w a) < 2 ^ 31 \<and> height (deref w a) < 2 ^ 31 \<longrightarrow>
              (sh = th \<and>
               height (deref w a) * sw \<le> width (deref w a) * sh \<and>
               width (deref w a) * sh \<le> height (deref w a) * (sw + 1)) \<or>
              (sw = tw \<and>
               width (deref w a) * sh \<le> height (deref w a) * sw \<and>
               height (deref w a) * sw \<le> width (deref w a) * (sh + 1))) \<and>
           (\<forall>w2 a2. deref w2 a2 = deref w a \<longrightarrow>
              (\<exists>r2 w2'. resize_for_ratio w2 a2 ratio = Inr (r2, w2') \<and> deref w2' r2 = deref w' r))"
proof -
  obtain tw th where sz: "get_output_size ratio = (tw, th)" by (cases "get_output_size ratio")
  let ?iw = "width (deref w a)" and ?ih = "height (deref w a)"
  from scaled_size_for_ratio [OF assms sz]
  obtain sw sh where
    sc: "scaled_size (?iw, ?ih) (tw, th) = Inr (sw, sh)" and
    spos: "0 < sw" "0 < sh" "0 \<le> tw" "0 \<le> th" and
    cover: "tw - 1 \<le> sw" "th - 1 \<le> sh" and
    ar: "?iw < 2 ^ 31 \<and> ?ih < 2 ^ 31 \<longrightarrow>
           (sh = th \<and> ?ih * sw \<le> ?iw * sh \<and> ?iw * sh \<le> ?ih * (sw + 1)) \<or>
           (sw = tw \<and> ?iw * sh \<le> ?ih * sw \<and> ?ih * sw \<le> ?iw * (sh + 1))" by blast
  let ?val = "cropped_image
               (if (?iw, ?ih) = (sw, sh) then deref w a else resized_image (deref w a) (sw, sh))
               ((sw - tw) div 2, (sh - th) div 2, (sw - tw) div 2 + tw, (sh - th) div 2 + th)"
  from resize_for_ratio_value [OF sz sc spos]
  obtain r w' where run: "resize_for_ratio w a ratio = Inr (r, w')" and val: "deref w' r = ?val"
    by blast
  have dims: "width (deref w' r) = tw" "height (deref w' r) = th"
    unfolding val by (simp_all add: cropped_size)
  have ras: "raster (deref w' r) =
             Cropped ((sw - tw) div 2) ((sh - th) div 2)
                     ((sw - tw) div 2 + tw) ((sh - th) div 2 + th)
               (if (?iw, ?ih) = (sw, sh) then raster (deref w a)
                else Resized sw sh (raster (deref w a)))"
    unfolding val by (simp add: cropped_image_def resized_image_def)
  have det: "\<exists>r2 w2'. resize_for_ratio w2 a2 ratio = Inr (r2, w2') \<and> deref w2' r2 = deref w' r"
    if same: "deref w2 a2 = deref w a" for w2 a2
  proof -
    have sc2: "scaled_size (width (deref w2 a2), height (deref w2 a2)) (tw, th) = Inr (sw, sh)"
      unfolding same by (rule sc)
    from resize_for_ratio_value [OF sz sc2 spos] show ?thesis unfolding same val by blast
  qed
  from sz run dims ras cover ar det show ?thesis by blast
qed

lemma example_resize:
  "case resize_for_ratio example_studio 0 ''1x1'' of
     Inl e \<Rightarrow> False
   | Inr (r, w') \<Rightarrow> raster (deref w' r) = Cropped 540 0 1620 1080 (Resized 2160 1080 (Pixels 0))"
  by code_simp

theorem C2_resize_for_ratio_witness:
  "0 < width (deref example_studio 0) \<and> 0 < height (deref example_studio 0) \<and>
   width (deref example_studio 0) < 2 ^ 31 \<and> height (deref example_studio 0) < 2 ^ 31 \<and>
   (\<exists>r w' sw sh. resize_for_ratio example_studio 0 ''1x1'' = Inr (r, w') \<and>
           width (deref w' r) = 1080 \<and> height (deref w' r) = 1080 \<and>
           raster (deref w' r) = Cropped 540 0 1620 1080 (Resized sw sh (Pixels 0)) \<and>
           sw = 2160 \<and> sh = 1080 \<and>
           height (deref example_studio 0) * sw \<le> width (deref example_studio 0) * sh \<and>
           width (deref example_studio 0) * sh \<le> height (deref example_studio 0) * (sw + 1))"
proof -
  have img: "deref example_studio 0 = example_image"
    by (simp add: example_studio_def deref_def)
  have w: "0 < width (deref example_studio 0)" and h: "0 < height (deref example_studio 0)"
    and w31: "width (deref example_studio 0) < 2 ^ 31"
    and h31: "height (deref example_studio 0) < 2 ^ 31"
    unfolding img by (simp_all add: example_image_def)
  have sz: "get_output_size ''1x1'' = (1080, 1080)"
    by (simp add: get_output_size_def dict_get_def OUTPUT_DIMENSIONS_def)
  from C2_resize_for_ratio [OF w h, of "''1x1''"] w31 h31
  obtain r w' sw sh tw th where g: "get_output_size ''1x1'' = (tw, th)" and
    run: "resize_for_ratio example_studio 0 ''1x1'' = Inr (r, w')" and
    d: "width (deref w' r) = tw" "height (deref w' r) = th" and
    ras: "raster (deref w' r) =
             Cropped ((sw - tw) div 2) ((sh - th) div 2)
                     ((sw - tw) div 2 + tw) ((sh - th) div 2 + th)
               (if (width (deref example_studio 0), height (deref example_studio 0)) = (sw, sh)
                then raster (deref example_studio 0)
                else Resized sw sh (raster (deref example_studio 0)))" and
    ar: "(sh = th \<and>
          height (deref example_studio 0) * sw \<le> width (deref example_studio 0) * sh \<and>
          width (deref example_studio 0) * sh \<le> height (deref example_studio 0) * (sw + 1)) \<or>
         (sw = tw \<and>
          width (deref example_studio 0) * sh \<le> height (deref example_studio 0) * sw \<and>
          height (deref example_studio 0) * sw \<le> width (deref example_studio 0) * (sh + 1))"
    by blast
  from g sz have t: "tw = 1080" "th = 1080" by simp_all
  from example_resize
  have ras2: "raster (deref w' r) = Cropped 540 0 1620 1080 (Resized 2160 1080 (Pixels 0))"
    unfolding run by simp
  have s: "sw = 2160" "sh = 1080"
    using ras unfolding ras2 img by (simp_all add: example_image_def split: if_splits)
  have ras3: "raster (deref w' r) = Cropped 540 0 1620 1080 (Resized sw sh (Pixels 0))"
    unfolding ras2 s ..
  have b: "height (deref example_studio 0) * sw \<le> width (deref example_studio 0) * sh"
    "width (deref example_studio 0) * sh \<le> height (deref example_studio 0) * (sw + 1)"
    using ar unfolding s t by simp_all
  from w h w31 h31 run d [unfolded t] ras3 s b show ?thesis by blast
qed

subsection \<open>Logo, text overlay and variations\<close>

lemma load_logo_missing:
  "cfg ''logo_path'' = Some p \<Longrightarrow> \<not> path_exists w p \<or> disk w p = None \<Longrightarrow>
   load_logo w cfg = (None, w)"
  by (auto simp: load_logo_def image_open_def)

lemma composer_init_no_logo:
  assumes "cfg ''logo_path'' = None \<or> cfg ''logo_path'' = Some [] \<or>
           (\<exists>p. cfg ''logo_path'' = Some p \<and> (\<not> path_exists w p \<or> disk w p = None))"
  shows "logo (fst (composer_init w cfg)) = None \<and> snd (composer_init w cfg) = w"
  using assms
  by (auto simp: composer_init_def load_logo_missing split: option.splits)

lemma add_logo_overlay_frame:
  "add_logo_overlay self w a position = (r, w') \<Longrightarrow> i < length (heap w) \<Longrightarrow>
   deref w' i = deref w i"
  by (auto simp: add_logo_overlay_def image_copy_def alloc_def deref_def image_paste_def store_def
      Let_def nth_append split: option.splits prod.splits if_splits)

text \<open>
  C9.  Without a logo \<open>add_logo_overlay\<close> returns the very image object it was given
  and changes nothing, so the result has the pixels of its input.  The composer has no logo
  when no logo path is configured, when it is empty, when no such file exists or when the
  file cannot be decoded.  In every case all image objects that existed before the call,
  the input among them, are what they were.
\<close>

theorem C9_logo_overlay_noop:
  "(logo self = None \<longrightarrow>
      add_logo_overlay self w a position = (a, w) \<and>
      deref (snd (add_logo_overlay self w a position)) (fst (add_logo_overlay self w a position)) =
        deref w a) \<and>
   (cfg ''logo_path'' = None \<or> cfg ''logo_path'' = Some [] \<or>
    (\<exists>p. cfg ''logo_path'' = Some p \<and> (\<not> path_exists w0 p \<or> disk w0 p = None)) \<longrightarrow>
      logo (fst (composer_init w0 cfg)) = None \<and>
      add_logo_overlay (fst (composer_init w0 cfg)) w a position = (a, w)) \<and>
   (\<forall>i < length (heap w). deref (snd (add_logo_overlay self w a position)) i = deref w i)"
proof -
  have noop: "add_logo_overlay s w a position = (a, w)" if "logo s = None" for s
    using that by (simp add: add_logo_overlay_def)
  have frame: "deref (snd (add_logo_overlay self w a position)) i = deref w i"
    if "i < length (heap w)" for i
    using add_logo_overlay_frame [OF prod.collapse [symmetric] that] .
  show ?thesis
    using noop composer_init_no_logo [of cfg w0] frame by auto
qed

lemma branded_facts:
  "logo branded_composer = Some 3"
  "length (heap branded_studio) = 4"
  "deref branded_studio 0 = example_image"
  "fst (add_logo_overlay branded_composer branded_studio 0 ''top-right'') = 4"
  "raster (deref (snd (add_logo_overlay branded_composer branded_studio 0 ''top-right'')) 4) =
     Pasted (Resized 150 75 (Converted ''RGBA'' (Pixels 0))) (1820, 30) (Pixels 0)"
  by code_simp+

theorem C9_logo_overlay_noop_witness:
  "no_brand ''logo_path'' = None \<and>
   logo (fst (composer_init example_studio no_brand)) = None \<and>
   add_logo_overlay (fst (composer_init example_studio no_brand)) example_studio 0 ''top-right'' =
     (0, example_studio) \<and>
   logo branded_composer = Some 3 \<and>
   (0::nat) < length (heap branded_studio) \<and>
   fst (add_logo_overlay branded_composer branded_studio 0 ''top-right'') = 4 \<and>
   deref (snd (add_logo_overlay branded_composer branded_studio 0 ''top-right'')) 0 = example_image"
proof -
  have nb: "no_brand ''logo_path'' = None" by (simp add: no_brand_def)
  have lt: "(0::nat) < length (heap branded_studio)" unfolding branded_facts by simp
  note inst = C9_logo_overlay_noop
     [of branded_composer branded_studio 0 "''top-right''" no_brand example_studio]
  have a: "logo (fst (composer_init example_studio no_brand)) = None \<and>
        add_logo_overlay (fst (composer_init example_studio no_brand)) example_studio 0 ''top-right'' =
          (0, example_studio)"
    using C9_logo_overlay_noop
       [of _ example_studio 0 "''top-right''" no_brand example_studio] nb by blast
  have b: "deref (snd (add_logo_overlay branded_composer branded_studio 0 ''top-right'')) 0 =
        example_image"
    using inst lt unfolding branded_facts(3) [symmetric] by blast
  from nb a b lt branded_facts(1,4) show ?thesis by blast
qed

lemma variations_loop_paths:
  "variations_loop P self w hero msg folder ratios acc = Inr (paths, w') \<Longrightarrow>
   paths = acc @ map (\<lambda>ratio. joinpath P folder (ratio @ ''.png'')) ratios"
proof (induction ratios arbitrary: w acc)
  case Nil
  then show ?case by simp
next
  case (Cons ratio rs)
  from Cons.prems obtain w5 where
    "variations_loop P self w5 hero msg folder rs (acc @ [joinpath P folder (ratio @ ''.png'')]) =
       Inr (paths, w')"
    by (auto simp: Let_def split: prod.splits sum.splits)
  from Cons.IH [OF this] show ?case by simp
qed

lemma create_variations_paths:
  assumes "create_variations P self w hero_path msg product_id output_folder ratios = Inr (paths, w')"
  shows "paths = map (\<lambda>ratio. joinpath P (joinpath P output_folder product_id) (ratio @ ''.png''))
                   (case ratios of None \<Rightarrow> all_formats | Some rs \<Rightarrow> rs)"
proof -
  from assms obtain w3 hero where
    "variations_loop P self w3 hero msg (joinpath P output_folder product_id)
       (case ratios of None \<Rightarrow> all_formats | Some rs \<Rightarrow> rs) [] = Inr (paths, w')"
    by (auto simp: create_variations_def Let_def split: prod.splits sum.splits if_splits)
  from variations_loop_paths [OF this] show ?thesis by simp
qed

lemma draw_last:
  assumes "heap w = h @ [x]" and "ink_ok (ink_of op)"
  shows "\<exists>w'. draw w (length h) op = Inr w' \<and>
           heap w' = h @ [x\<lparr>raster := Drawn op (raster x)\<rparr>] \<and> writable w' = writable w"
  using assms by (simp add: draw_def store_def deref_def Let_def)

lemma draw_all_last:
  assumes "heap w = h @ [x]" and "\<forall>op \<in> set ops. ink_ok (ink_of op)"
  shows "\<exists>w' y. draw_all w (length h) ops = Inr w' \<and> heap w' = h @ [y] \<and>
           width y = width x \<and> height y = height x \<and> mode y = mode x \<and>
           writable w' = writable w"
  using assms
proof (induction ops arbitrary: w x)
  case Nil
  then show ?case by simp
next
  case (Cons op ops)
  have ok: "ink_ok (ink_of op)" and oks: "\<forall>op \<in> set ops. ink_ok (ink_of op)"
    using Cons.prems(2) by simp_all
  from draw_last [OF Cons.prems(1) ok] obtain w1 where
    d: "draw w (length h) op = Inr w1" and
    h1: "heap w1 = h @ [x\<lparr>raster := Drawn op (raster x)\<rparr>]" and wr: "writable w1 = writable w"
    by blast
  from Cons.IH [OF h1 oks] d wr show ?case by auto
qed

lemma text_ops_inks:
  assumes "ink_ok text_color"
  shows "\<forall>op \<in> set (text_ops P tb text_color ls text_y). ink_ok (ink_of op)"
proof (induction ls arbitrary: text_y)
  case Nil
  then show ?case by simp
next
  case (Cons line ls)
  have "\<forall>op \<in> set (line_ops fs xy line text_color). ink_ok (ink_of op)" for fs xy
    using assms by (cases xy) (auto simp: line_ops_def ink_ok_def)
  with Cons show ?case by (auto simp: Let_def)
qed

lemma add_text_overlay_ok:
  assumes "height (deref w a) \<noteq> 0" and "draw_mode_ok (deref w a)"
    and "ink_ok (panel_color P self)" and "ink_ok (fill_color P self)"
  shows "\<exists>w' y. add_text_overlay P self w a text position = Inr (length (heap w), w') \<and>
           heap w' = heap w @ [y] \<and> width y = width (deref w a) \<and>
           height y = height (deref w a) \<and> mode y = mode (deref w a) \<and>
           writable w' = writable w"
proof -
  let ?img = "deref w a"
  obtain tb where tb: "text_layout P (width ?img, height ?img) text position = Inr tb"
    using text_layout_total [OF assms(1)] by blast
  let ?w1 = "w\<lparr>heap := heap w @ [?img]\<rparr>"
  have cp: "image_copy w a = (length (heap w), ?w1)" and h1: "heap ?w1 = heap w @ [?img]"
    and wr1: "writable ?w1 = writable w" and d1: "deref ?w1 a = deref ?w1 a"
    by (simp_all add: image_copy_def alloc_def)
  let ?rect = "Rectangle [tb_x tb, tb_y tb, tb_x tb + tb_bg_width tb, tb_y tb + tb_bg_height tb]
                 (panel_color P self)"
  have rok: "ink_ok (ink_of ?rect)" using assms(3) by simp
  from draw_last [OF h1 rok] obtain w2 where
    dr: "draw ?w1 (length (heap w)) ?rect = Inr w2" and
    h2: "heap w2 = heap w @ [?img\<lparr>raster := Drawn ?rect (raster ?img)\<rparr>]" and
    wr2: "writable w2 = writable ?w1" by blast
  let ?ops = "text_ops P tb (fill_color P self) (tb_lines tb) (tb_y tb + 25)"
  from draw_all_last [OF h2 text_ops_inks [OF assms(4)], of P tb "tb_lines tb" "tb_y tb + 25"]
  obtain w3 y where
    da: "draw_all w2 (length (heap w)) ?ops = Inr w3" and
    h3: "heap w3 = heap w @ [y]" and dims: "width y = width ?img" "height y = height ?img"
      "mode y = mode ?img"
    and wr3: "writable w3 = writable w2" by auto
  have nm: "\<not> \<not> draw_mode_ok ?img" using assms(2) by simp
  have "add_text_overlay P self w a text position = Inr (length (heap w), w3)"
    unfolding add_text_overlay_def cp prod.case Let_def if_not_P [OF nm] tb sum.case dr da
    by simp
  with h3 dims wr3 wr2 wr1 show ?thesis by auto
qed

lemma plain_composer_inks:
  "panel_color example_platform plain_composer = [255, 87, 51, 200]"
  "fill_color example_platform plain_composer = [255, 255, 255]"
  by code_simp+

lemma square_studio_facts:
  "deref square_studio 0 = square_image"
  "length (heap square_studio) = 1"
  by (simp_all add: square_studio_def deref_def)

text \<open>
  C7.  The panel does not always keep 20 pixels to every edge.  On a 1080 by 1080 image
  a message with a word of 34 letters is laid out with a panel 1794 pixels wide (the
  wrap keeps a word that is wider than 85% of the image on a line of its own, and the
  panel is as wide as the widest line plus padding).  The clamp puts it at \<open>x = 20\<close>,
  and \<open>add_text_overlay\<close> draws it from \<open>x = 20\<close> to \<open>x = 1814\<close>: its right edge is
  not 20 pixels inside the image, it is 734 pixels outside of it.
\<close>

theorem C7_panel_overflows_image:
  "text_layout example_platform (1080, 1080) long_word_text ''bottom'' = Inr long_word_block \<and>
   tb_x long_word_block = 20 \<and> tb_bg_width long_word_block = 1794 \<and>
   \<not> tb_x long_word_block + tb_bg_width long_word_block \<le> 1080 - 20 \<and>
   (\<exists>r w'. add_text_overlay example_platform plain_composer square_studio 0 long_word_text
              ''bottom'' = Inr (r, w') \<and>
           width (deref w' r) = 1080 \<and> height (deref w' r) = 1080 \<and>
           hd (drawn_ops (raster (deref w' r))) =
             Rectangle [20, 536, 1814, 1030] [255, 87, 51, 200])"
proof -
  have img: "deref square_studio 0 = square_image" by (rule square_studio_facts)
  have h: "height (deref square_studio 0) \<noteq> 0" and m: "draw_mode_ok (deref square_studio 0)"
    unfolding img by (simp_all add: square_image_def draw_mode_ok_def)
  have inks: "ink_ok (panel_color example_platform plain_composer)"
    "ink_ok (fill_color example_platform plain_composer)"
    unfolding plain_composer_inks by (simp_all add: ink_ok_def)
  from add_text_overlay_ok [OF h m inks, of long_word_text "''bottom''"]
  obtain w' y where
    run: "add_text_overlay example_platform plain_composer square_studio 0 long_word_text
            ''bottom'' = Inr (length (heap square_studio), w')" and
    hp: "heap w' = heap square_studio @ [y]" and
    dims: "width y = width (deref square_studio 0)" "height y = height (deref square_studio 0)"
    by blast
  have y: "deref w' (length (heap square_studio)) = y" unfolding deref_def hp by simp
  from add_text_overlay_layout [OF run] obtain tb where
    l: "text_layout example_platform (width (deref square_studio 0), height (deref square_studio 0))
          long_word_text ''bottom'' = Inr tb" and
    d: "drawn_ops (raster (deref w' (length (heap square_studio)))) =
          drawn_ops (raster (deref square_studio 0)) @
          Rectangle [tb_x tb, tb_y tb, tb_x tb + tb_bg_width tb, tb_y tb + tb_bg_height tb]
            (panel_color example_platform plain_composer) #
          text_ops example_platform tb (fill_color example_platform plain_composer) (tb_lines tb)
            (tb_y tb + 25)" by blast
  have sz: "width (deref square_studio 0) = 1080" "height (deref square_studio 0) = 1080"
    unfolding img by (simp_all add: square_image_def)
  from l have tb: "tb = long_word_block" unfolding sz long_word_layout by simp
  have first: "hd (drawn_ops (raster (deref w' (length (heap square_studio))))) =
        Rectangle [20, 536, 1814, 1030] [255, 87, 51, 200]"
    unfolding d tb img plain_composer_inks
    by (simp add: square_image_def long_word_block_def)
  have size: "width (deref w' (length (heap square_studio))) = 1080"
    "height (deref w' (length (heap square_studio))) = 1080"
    unfolding y dims sz by simp_all
  have lay: "tb_x long_word_block = 20" "tb_bg_width long_word_block = 1794"
    "\<not> tb_x long_word_block + tb_bg_width long_word_block \<le> 1080 - 20"
    by (simp_all add: long_word_block_def)
  from long_word_layout lay run size first show ?thesis by blast
qed

lemma add_logo_overlay_ok:
  "\<exists>r w' extra. add_logo_overlay self w a position = (r, w') \<and> heap w' = heap w @ extra \<and>
     writable w' = writable w"
  by (cases "logo self")
     (auto simp: add_logo_overlay_def image_copy_def alloc_def image_paste_def store_def deref_def
        Let_def split: prod.splits)

lemma image_save_ok:
  assumes "writable w p"
  shows "\<exists>w'. image_save w a p = Inr w' \<and> heap w' = heap w \<and> writable w' = writable w"
  using assms by (simp add: image_save_def)

lemma resize_for_ratio_ok:
  assumes "0 < width (deref w a)" and "0 < height (deref w a)"
  shows "\<exists>r w' extra. resize_for_ratio w a ratio = Inr (r, w') \<and>
           (width (deref w' r), height (deref w' r)) = get_output_size ratio \<and>
           mode (deref w' r) = mode (deref w a) \<and>
           heap w' = heap w @ extra \<and> writable w' = writable w"
proof -
  obtain tw th where sz: "get_output_size ratio = (tw, th)" by (cases "get_output_size ratio")
  from scaled_size_for_ratio [OF assms sz]
  obtain sw sh where
    sc: "scaled_size (width (deref w a), height (deref w a)) (tw, th) = Inr (sw, sh)" and
    spos: "0 < sw" "0 < sh" "0 \<le> tw" "0 \<le> th" by blast
  from resize_for_ratio_value [OF sz sc spos] show ?thesis
    unfolding sz by (auto simp: cropped_size cropped_image_def resized_image_def)
qed

lemma variations_step:
  assumes hero: "hero < length (heap w)"
    and pos: "0 < width (deref w hero)" "0 < height (deref w hero)"
    and md: "mode (deref w hero) = ''RGB''"
    and ink: "ink_ok (panel_color P self)" "ink_ok (fill_color P self)"
    and wr: "writable w (joinpath P folder (ratio @ ''.png''))"
  shows "\<exists>w5 extra. heap w5 = heap w @ extra \<and> writable w5 = writable w \<and>
           variations_loop P self w hero msg folder (ratio # rs) acc =
           variations_loop P self w5 hero msg folder rs (acc @ [joinpath P folder (ratio @ ''.png'')])"
proof -
  let ?path = "joinpath P folder (ratio @ ''.png'')"
  let ?c = "length (heap w)"
  let ?w1 = "w\<lparr>heap := heap w @ [deref w hero]\<rparr>"
  have cp: "image_copy w hero = (?c, ?w1)" by (simp add: image_copy_def alloc_def)
  have c1: "deref ?w1 ?c = deref w hero" by (simp add: deref_def)
  have p1: "0 < width (deref ?w1 ?c)" "0 < height (deref ?w1 ?c)" unfolding c1 by (rule pos)+
  from resize_for_ratio_ok [OF p1, of ratio] obtain r w2 e2 where
    rs: "resize_for_ratio ?w1 ?c ratio = Inr (r, w2)" and
    d2: "(width (deref w2 r), height (deref w2 r)) = get_output_size ratio" and
    m2: "mode (deref w2 r) = mode (deref ?w1 ?c)" and
    h2: "heap w2 = heap ?w1 @ e2" and wr2: "writable w2 = writable ?w1" by blast
  have "height (deref w2 r) = snd (get_output_size ratio)" using d2 [symmetric] by simp
  then have hz: "height (deref w2 r) \<noteq> 0" using output_size_positive [of ratio] by simp
  have dm: "draw_mode_ok (deref w2 r)" unfolding draw_mode_ok_def m2 c1 md by simp
  from add_text_overlay_ok [OF hz dm ink, of msg "''bottom''"] obtain w3 y where
    tx: "add_text_overlay P self w2 r msg ''bottom'' = Inr (length (heap w2), w3)" and
    h3: "heap w3 = heap w2 @ [y]" and wr3: "writable w3 = writable w2" by blast
  let ?t = "length (heap w2)"
  obtain f w4 e4 where
    lg: "(if logo self \<noteq> None then add_logo_overlay self w3 ?t ''top-right'' else (?t, w3)) = (f, w4)"
    and h4: "heap w4 = heap w3 @ e4" and wr4: "writable w4 = writable w3"
  proof (cases "logo self \<noteq> None")
    case True
    from add_logo_overlay_ok [of self w3 ?t "''top-right''"] obtain f w4 e4 where
      "add_logo_overlay self w3 ?t ''top-right'' = (f, w4)" "heap w4 = heap w3 @ e4"
      "writable w4 = writable w3" by blast
    with True that show ?thesis by simp
  next
    case False
    with that [of ?t w3 "[]"] show ?thesis by simp
  qed
  have "writable w4 ?path" using wr wr4 wr3 wr2 by simp
  from image_save_ok [OF this, of f] obtain w5 where
    sv: "image_save w4 f ?path = Inr w5" and h5: "heap w5 = heap w4" and
    wr5: "writable w5 = writable w4" by blast
  have heap5: "heap w5 = heap w @ ([deref w hero] @ e2 @ [y] @ e4)"
    using h5 h4 h3 h2 by simp
  have wri5: "writable w5 = writable w" using wr5 wr4 wr3 wr2 by simp
  have "variations_loop P self w hero msg folder (ratio # rs) acc =
        variations_loop P self w5 hero msg folder rs (acc @ [?path])"
    unfolding variations_loop.simps cp prod.case Let_def rs sum.case tx lg sv by (rule refl)
  with heap5 wri5 show ?thesis by blast
qed

lemma variations_loop_returns:
  assumes "hero < length (heap w)"
    and "0 < width (deref w hero)" "0 < height (deref w hero)"
    and "mode (deref w hero) = ''RGB''"
    and "ink_ok (panel_color P self)" "ink_ok (fill_color P self)"
    and "\<forall>ratio \<in> set ratios. writable w (joinpath P folder (ratio @ ''.png''))"
  shows "\<exists>paths w'. variations_loop P self w hero msg folder ratios acc = Inr (paths, w')"
  using assms
proof (induction ratios arbitrary: w acc)
  case Nil
  then show ?case by simp
next
  case (Cons ratio rs)
  have wr: "writable w (joinpath P folder (ratio @ ''.png''))" using Cons.prems(7) by simp
  from variations_step [OF Cons.prems(1,2,3,4,5,6) wr, of msg rs acc]
  obtain w5 extra where h5: "heap w5 = heap w @ extra" and wr5: "writable w5 = writable w" and
    step: "variations_loop P self w hero msg folder (ratio # rs) acc =
           variations_loop P self w5 hero msg folder rs (acc @ [joinpath P folder (ratio @ ''.png'')])"
    by blast
  have same: "deref w5 hero = deref w hero"
    using heap_extension_frame [OF h5 Cons.prems(1)] .
  have a: "hero < length (heap w5)" using h5 Cons.prems(1) by simp
  have b: "0 < width (deref w5 hero)" "0 < height (deref w5 hero)" "mode (deref w5 hero) = ''RGB''"
    unfolding same using Cons.prems(2,3,4) by simp_all
  have c: "\<forall>ratio \<in> set rs. writable w5 (joinpath P folder (ratio @ ''.png''))"
    unfolding wr5 using Cons.prems(7) by simp
  from Cons.IH [OF a b Cons.prems(5,6) c] show ?case unfolding step .
qed

lemma create_variations_returns:
  assumes dk: "disk w hero_path = Some img" and pos: "0 < width img" "0 < height img"
    and mk: "mkdir_ok w (joinpath P output_folder product_id)"
    and ink: "ink_ok (panel_color P self)" "ink_ok (fill_color P self)"
    and wr: "\<forall>ratio \<in> set (case ratios of None \<Rightarrow> all_formats | Some rs \<Rightarrow> rs).
               writable w (joinpath P (joinpath P output_folder product_id) (ratio @ ''.png''))"
  shows "\<exists>paths w'. create_variations P self w hero_path msg product_id output_folder ratios =
                      Inr (paths, w')"
proof -
  let ?folder = "joinpath P output_folder product_id"
  let ?o = "length (heap w)"
  let ?w1 = "w\<lparr>heap := heap w @ [img]\<rparr>"
  have op: "image_open w hero_path = Inr (?o, ?w1)" using dk by (simp add: image_open_def alloc_def)
  have d1: "deref ?w1 ?o = img" by (simp add: deref_def)
  obtain hero w2 where
    cv: "(if mode (deref ?w1 ?o) \<noteq> ''RGB'' then image_convert ?w1 ?o ''RGB'' else (?o, ?w1)) = (hero, w2)"
    and hv: "hero < length (heap w2)" and hd: "width (deref w2 hero) = width img"
      "height (deref w2 hero) = height img" and hm: "mode (deref w2 hero) = ''RGB''"
    and mk2: "mkdir_ok w2 = mkdir_ok w" and wr2: "writable w2 = writable w"
  proof (cases "mode (deref ?w1 ?o) \<noteq> ''RGB''")
    case True
    let ?c = "img\<lparr>mode := ''RGB'', raster := Converted ''RGB'' (raster img)\<rparr>"
    have "image_convert ?w1 ?o ''RGB'' = (Suc ?o, ?w1\<lparr>heap := heap ?w1 @ [?c]\<rparr>)"
      by (simp add: image_convert_def alloc_def Let_def d1)
    moreover have "(heap w @ [img, ?c]) ! Suc ?o = ?c" by (simp add: nth_append)
    ultimately show ?thesis
      using True that [of "Suc ?o" "?w1\<lparr>heap := heap ?w1 @ [?c]\<rparr>"] by (simp add: deref_def)
  next
    case False
    with that [of ?o ?w1] d1 show ?thesis by simp
  qed
  let ?w3 = "w2\<lparr>path_exists := (path_exists w2)(?folder := True)\<rparr>"
  have a: "hero < length (heap ?w3)" using hv by simp
  have d3: "deref ?w3 hero = deref w2 hero" by (simp add: deref_def)
  have b: "0 < width (deref ?w3 hero)" "0 < height (deref ?w3 hero)"
    unfolding d3 hd by (rule pos)+
  have m3: "mode (deref ?w3 hero) = ''RGB''" unfolding d3 by (rule hm)
  have c: "\<forall>ratio \<in> set (case ratios of None \<Rightarrow> all_formats | Some rs \<Rightarrow> rs).
             writable ?w3 (joinpath P ?folder (ratio @ ''.png''))"
    using wr wr2 by simp
  from variations_loop_returns [OF a b m3 ink c, of msg "[]"] obtain paths w' where
    lp: "variations_loop P self ?w3 hero msg ?folder
           (case ratios of None \<Rightarrow> all_formats | Some rs \<Rightarrow> rs) [] = Inr (paths, w')" by blast
  have mk': "mkdir_ok w2 ?folder" using mk mk2 by simp
  have "create_variations P self w hero_path msg product_id output_folder ratios = Inr (paths, w')"
    unfolding create_variations_def Let_def op sum.case prod.case cv using mk' lp by simp
  then show ?thesis by blast
qed

lemma all_formats_names: "all_formats = [''1x1'', ''9x16'', ''16x9'', ''4x5'', ''2x3'']"
  by (simp add: all_formats_def OUTPUT_DIMENSIONS_def)

text \<open>
  C5.  The paths that \<open>create_variations\<close> returns are, for the requested ratios in
  their order, the product folder (output folder joined with the product id) joined with
  the ratio name followed by \<open>.png\<close>: one path per ratio.  Without a list of ratios the
  requested ratios are all names of the output table.  The call returns whenever the base
  image decodes to an image of positive size, the product folder can be made, the panel
  and text colours are colours the drawing layer accepts, and every one of these paths
  can be written.
\<close>

theorem C5_create_variations_paths:
  fixes P self w hero_image_path campaign_message product_id output_folder ratios
  defines "requested \<equiv> (case ratios of None \<Rightarrow> all_formats | Some rs \<Rightarrow> rs)"
    and "product_folder \<equiv> joinpath P output_folder product_id"
  shows "(create_variations P self w hero_image_path campaign_message product_id output_folder ratios =
            Inr (paths, w') \<longrightarrow>
          paths = map (\<lambda>ratio. joinpath P product_folder (ratio @ ''.png'')) requested \<and>
          length paths = length requested) \<and>
         (disk w hero_image_path = Some img \<and> 0 < width img \<and> 0 < height img \<and>
          mkdir_ok w product_folder \<and>
          ink_ok (panel_color P self) \<and> ink_ok (fill_color P self) \<and>
          (\<forall>ratio \<in> set requested. writable w (joinpath P product_folder (ratio @ ''.png''))) \<longrightarrow>
          (\<exists>ps w2. create_variations P self w hero_image_path campaign_message product_id
                      output_folder ratios = Inr (ps, w2))) \<and>
         all_formats = map fst OUTPUT_DIMENSIONS \<and>
         all_formats = [''1x1'', ''9x16'', ''16x9'', ''4x5'', ''2x3'']"
proof -
  have a: "paths = map (\<lambda>ratio. joinpath P product_folder (ratio @ ''.png'')) requested \<and>
           length paths = length requested"
    if "create_variations P self w hero_image_path campaign_message product_id output_folder ratios =
          Inr (paths, w')"
    using create_variations_paths [OF that] unfolding requested_def product_folder_def by simp
  have b: "\<exists>ps w2. create_variations P self w hero_image_path campaign_message product_id
                      output_folder ratios = Inr (ps, w2)"
    if "disk w hero_image_path = Some img \<and> 0 < width img \<and> 0 < height img \<and>
        mkdir_ok w product_folder \<and>
        ink_ok (panel_color P self) \<and> ink_ok (fill_color P self) \<and>
        (\<forall>ratio \<in> set requested. writable w (joinpath P product_folder (ratio @ ''.png'')))"
    using that unfolding requested_def product_folder_def
    by (intro create_variations_returns [of w hero_image_path img]) simp_all
  from a b all_formats_names show ?thesis by (simp add: all_formats_def)
qed

lemma branded_disk:
  "disk branded_studio ''hero.png'' = Some example_image"
  "mkdir_ok branded_studio p"
  "writable branded_studio p"
  by (simp_all add: branded_studio_def composer_init_def load_logo_def logo_brand_def
      example_studio_def example_world_def image_open_def alloc_def image_convert_def
      image_resize_def image_copy_def deref_def Let_def split: prod.splits)

lemma branded_inks:
  "ink_ok (panel_color example_platform branded_composer)"
  "ink_ok (fill_color example_platform branded_composer)"
  by code_simp+

lemma example_image_size: "0 < width example_image" "0 < height example_image"
  by (simp_all add: example_image_def)

lemma example_joinpath: "joinpath example_platform p name = p @ ''/'' @ name"
  by (simp add: example_platform_def)

theorem C5_create_variations_paths_witness:
  "(\<exists>w'. create_variations example_platform branded_composer branded_studio ''hero.png''
           ''Get fit this spring'' ''shoe'' ''outputs'' (Some [''1x1'', ''16x9'']) =
         Inr ([''outputs/shoe/1x1.png'', ''outputs/shoe/16x9.png''], w')) \<and>
   (\<exists>w'. create_variations example_platform branded_composer branded_studio ''hero.png''
           ''Get fit this spring'' ''shoe'' ''outputs'' None =
         Inr ([''outputs/shoe/1x1.png'', ''outputs/shoe/9x16.png'', ''outputs/shoe/16x9.png'',
               ''outputs/shoe/4x5.png'', ''outputs/shoe/2x3.png''], w'))"
proof -
  have pre: "disk branded_studio ''hero.png'' = Some example_image \<and>
        0 < width example_image \<and> 0 < height example_image \<and>
        mkdir_ok branded_studio (joinpath example_platform ''outputs'' ''shoe'') \<and>
        ink_ok (panel_color example_platform branded_composer) \<and>
        ink_ok (fill_color example_platform branded_composer) \<and>
        (\<forall>ratio \<in> set (case rs of None \<Rightarrow> all_formats | Some rs \<Rightarrow> rs).
           writable branded_studio
             (joinpath example_platform (joinpath example_platform ''outputs'' ''shoe'')
                (ratio @ ''.png'')))" for rs
    by (simp add: branded_disk example_image_size branded_inks)
  note two = C5_create_variations_paths [of example_platform branded_composer branded_studio
      "''hero.png''" "''Get fit this spring''" "''shoe''" "''outputs''" "Some [''1x1'', ''16x9'']"]
  note all = C5_create_variations_paths [of example_platform branded_composer branded_studio
      "''hero.png''" "''Get fit this spring''" "''shoe''" "''outputs''" None]
  from two [THEN conjunct2, THEN conjunct1, of example_image] pre [of "Some [''1x1'', ''16x9'']"]
  obtain ps w2 where r1: "create_variations example_platform branded_composer branded_studio
      ''hero.png'' ''Get fit this spring'' ''shoe'' ''outputs'' (Some [''1x1'', ''16x9'']) = Inr (ps, w2)"
    by blast
  from two [THEN conjunct1, THEN mp, OF r1]
  have p1: "ps = [''outputs/shoe/1x1.png'', ''outputs/shoe/16x9.png'']"
    by (simp add: example_joinpath)
  from all [THEN conjunct2, THEN conjunct1, of example_image] pre [of None]
  obtain qs w3 where r2: "create_variations example_platform branded_composer branded_studio
      ''hero.png'' ''Get fit this spring'' ''shoe'' ''outputs'' None = Inr (qs, w3)"
    by blast
  from all [THEN conjunct1, THEN mp, OF r2]
  have p2: "qs = [''outputs/shoe/1x1.png'', ''outputs/shoe/9x16.png'', ''outputs/shoe/16x9.png'',
               ''outputs/shoe/4x5.png'', ''outputs/shoe/2x3.png'']"
    by (simp add: example_joinpath all_formats_names)
  from r1 p1 r2 p2 show ?thesis by blast
qed

end
